theory Spec2Isabelle
  imports Main "HOL-Library.Word"
begin

section \<open>Data model\<close>

text \<open>
  The engine (package simplelru) and its thread-safe wrapper (package lru) are embedded
  function by function.  Go pointers to entries are addresses into a store of entries,
  so that the index \<open>items\<close> and the recency list share one entry per key, as the Go
  objects do.  A method that mutates its receiver takes the receiver and returns the
  new one.  A callback is a function on the state it mutates; that state is passed
  through every method that may fire the callback.

  A Go panic is the left summand of the result.  For a method that may fire the callback
  it carries the state in which the panic happened: the receiver as the method has left
  it and the state of the callback at that moment, both of which the program still holds
  when the panic is recovered.  A method that cannot fire the callback (\<open>Get\<close>, \<open>Peek\<close>,
  \<open>GetOldest\<close>, \<open>Keys\<close>) has the bare panic there: it panics, if at all, before it
  has changed anything.

  The weight function and the callbacks are total functions: a weight function or a
  callback that panics, or a callback that calls back into the cache, is not modelled.
  The lock of the wrapper is not modelled: calls are taken one at a time.  (A method of
  the wrapper that panics leaves the lock locked.)  The method \<open>m\<close> of the type \<open>LRU\<close>
  is the function \<open>LRU_m\<close>, that of the type \<open>Cache\<close> is \<open>Cache_m\<close>; the unexported
  methods keep their names.
\<close>

type_synonym ptr = nat
type_synonym uint64 = "64 word"

datatype panic = NilPointerDereference | IndexOutOfRange

datatype error = MustProvidePositiveSize

text \<open>An entry of the list; the field \<open>val\<close> is the source's \<open>value\<close>.\<close>

record ('k, 'v) entry =
  key :: 'k
  val :: 'v
  weight :: uint64

subsection \<open>The ordered store\<close>

text \<open>
  Modelled from the spec: the type \<open>lruList\<close> and its methods (\<open>newList\<close>, \<open>init\<close>,
  \<open>pushFront\<close>, \<open>moveToFront\<close>, \<open>remove\<close>, \<open>back\<close>, \<open>length\<close>, \<open>prevEntry\<close>), whose
  file is not among the sources.  The spec describes a sequence of entries, front the most
  recently used, back the least recently used; \<open>pushFront\<close> inserts a new entry at the
  front and returns a handle, \<open>moveToFront\<close> relocates an entry to the front, \<open>remove\<close>
  detaches an entry, \<open>back\<close> returns the last entry or none, \<open>length\<close> is the number of
  entries.  Here \<open>cells\<close> holds the allocated entries, \<open>order\<close> the handles from front
  to back, and \<open>fresh\<close> the next unused address.  A detached entry stays in \<open>cells\<close>:
  the engine reads its fields after removing it.  The methods \<open>init\<close>, \<open>remove\<close>,
  \<open>back\<close> and \<open>length\<close> are \<open>list_init\<close>, \<open>list_remove\<close>, \<open>list_back\<close> and
  \<open>list_length\<close> here; \<open>prevEntry\<close> is the step from a handle to the one before it in
  \<open>order\<close>.
\<close>

record ('k, 'v) lruList =
  cells :: "ptr \<rightharpoonup> ('k, 'v) entry"
  order :: "ptr list"
  fresh :: ptr

definition newList :: "('k, 'v) lruList" where
  "newList = \<lparr>cells = Map.empty, order = [], fresh = 0\<rparr>"

definition list_init :: "('k, 'v) lruList \<Rightarrow> ('k, 'v) lruList" where
  "list_init l = l\<lparr>order := []\<rparr>"

definition pushFront :: "('k, 'v) lruList \<Rightarrow> 'k \<Rightarrow> 'v \<Rightarrow> ptr \<times> ('k, 'v) lruList" where
  "pushFront l k v =
     (let p = fresh l
      in (p, l\<lparr>cells := (cells l)(p \<mapsto> \<lparr>key = k, val = v, weight = 0\<rparr>),
                order := p # order l,
                fresh := Suc p\<rparr>))"

definition moveToFront :: "('k, 'v) lruList \<Rightarrow> ptr \<Rightarrow> ('k, 'v) lruList" where
  "moveToFront l p = l\<lparr>order := p # remove1 p (order l)\<rparr>"

definition list_remove :: "('k, 'v) lruList \<Rightarrow> ptr \<Rightarrow> ('k, 'v) lruList" where
  "list_remove l p = l\<lparr>order := remove1 p (order l)\<rparr>"

definition list_back :: "('k, 'v) lruList \<Rightarrow> ptr option" where
  "list_back l = (if order l = [] then None else Some (last (order l)))"

definition list_length :: "('k, 'v) lruList \<Rightarrow> nat" where
  "list_length l = length (order l)"

text \<open>Writing through an entry pointer (\<open>ent.value = ...\<close>, \<open>ent.weight = ...\<close>).\<close>

definition store :: "('k, 'v) lruList \<Rightarrow> ptr \<Rightarrow> ('k, 'v) entry \<Rightarrow> ('k, 'v) lruList" where
  "store l p ent = l\<lparr>cells := (cells l)(p \<mapsto> ent)\<rparr>"

subsection \<open>The engine: type LRU\<close>

text \<open>
  The field \<open>lru_size\<close> is the source's \<open>size\<close>, a Go \<open>int\<close>; nothing is computed from
  it, it is only compared, so it is an unbounded integer here.  The weights are
  \<open>uint64\<close> and wrap around.  The type \<open>'s\<close> is the state the eviction callback works on.
\<close>

record ('k, 'v, 's) LRU =
  lru_size :: int
  evictList :: "('k, 'v) lruList"
  items :: "'k \<rightharpoonup> ptr"
  onEvict :: "('k \<Rightarrow> 'v \<Rightarrow> 's \<Rightarrow> 's) option"
  weightTotal :: uint64
  weightLimit :: uint64
  weightCalculator :: "('v \<Rightarrow> uint64) option"

definition NewLRUWithWeightLimit ::
  "int \<Rightarrow> uint64 \<Rightarrow> ('v \<Rightarrow> uint64) option \<Rightarrow> ('k \<Rightarrow> 'v \<Rightarrow> 's \<Rightarrow> 's) option
     \<Rightarrow> error + ('k, 'v, 's) LRU" where
  "NewLRUWithWeightLimit sz wl wc cb =
     (if sz \<le> 0 then Inl MustProvidePositiveSize
      else Inr \<lparr>lru_size = sz, evictList = newList, items = Map.empty, onEvict = cb,
                weightTotal = 0, weightLimit = wl, weightCalculator = wc\<rparr>)"

definition NewLRU :: "int \<Rightarrow> ('k \<Rightarrow> 'v \<Rightarrow> 's \<Rightarrow> 's) option \<Rightarrow> error + ('k, 'v, 's) LRU" where
  "NewLRU sz cb = NewLRUWithWeightLimit sz 0 None cb"

text \<open>\<open>if c.onEvict != nil { c.onEvict(k, v) }\<close>\<close>

definition fire :: "('k, 'v, 's) LRU \<Rightarrow> 'k \<Rightarrow> 'v \<Rightarrow> 's \<Rightarrow> 's" where
  "fire c k v s = (case onEvict c of None \<Rightarrow> s | Some f \<Rightarrow> f k v s)"

definition removeElement ::
  "('k, 'v, 's) LRU \<Rightarrow> ptr option \<Rightarrow> 's
     \<Rightarrow> (panic \<times> ('k, 'v, 's) LRU \<times> 's) + (('k, 'v, 's) LRU \<times> 's)" where
  "removeElement c e s =
     (case e of
        None \<Rightarrow> Inl (NilPointerDereference, c, s)
      | Some p \<Rightarrow>
          (case cells (evictList c) p of
             None \<Rightarrow> Inl (NilPointerDereference, c, s)
           | Some ent \<Rightarrow>
               Inr (c\<lparr>evictList := list_remove (evictList c) p,
                      items := (items c)(key ent := None),
                      weightTotal := weightTotal c - weight ent\<rparr>,
                    fire c (key ent) (val ent) s)))"

text \<open>
  The loop of \<open>checkEvict\<close>, with the counter \<open>evicted\<close> as an argument.  When the list
  is empty and the condition still holds, \<open>back\<close> is nil and \<open>removeElement\<close> panics;
  the entries removed in the passes before stay removed and the callback has run for them.
\<close>

function checkEvict_loop ::
  "('k, 'v, 's) LRU \<Rightarrow> 's \<Rightarrow> nat
     \<Rightarrow> (panic \<times> ('k, 'v, 's) LRU \<times> 's) + (nat \<times> ('k, 'v, 's) LRU \<times> 's)" where
  "checkEvict_loop c s evicted =
     (if int (list_length (evictList c)) > lru_size c \<or> weightTotal c > weightLimit c
      then (case removeElement c (list_back (evictList c)) s of
              Inl x \<Rightarrow> Inl x
            | Inr (c', s') \<Rightarrow> checkEvict_loop c' s' (evicted + 1))
      else Inr (evicted, c, s))"
  by pat_completeness auto

lemma removeElement_back_shorter:
  assumes "removeElement c (list_back (evictList c)) s = Inr (c', s')"
  shows "length (order (evictList c')) < length (order (evictList c))"
proof -
  from assms obtain p ent where b: "list_back (evictList c) = Some p"
    and "cells (evictList c) p = Some ent"
    and c': "c' = c\<lparr>evictList := list_remove (evictList c) p,
                     items := (items c)(key ent := None),
                     weightTotal := weightTotal c - weight ent\<rparr>"
    by (auto simp: removeElement_def split: option.splits)
  from b have "p \<in> set (order (evictList c))"
    by (auto simp: list_back_def split: if_splits)
  then have "length (remove1 p (order (evictList c))) < length (order (evictList c))"
    by (simp add: length_remove1) (cases "order (evictList c)"; simp)
  with c' show ?thesis by (simp add: list_remove_def)
qed

termination checkEvict_loop
  by (relation "measure (\<lambda>(c, s, n). length (order (evictList c)))")
     (auto dest: removeElement_back_shorter)

declare checkEvict_loop.simps [simp del]

definition checkEvict ::
  "('k, 'v, 's) LRU \<Rightarrow> 's
     \<Rightarrow> (panic \<times> ('k, 'v, 's) LRU \<times> 's) + (nat \<times> ('k, 'v, 's) LRU \<times> 's)" where
  "checkEvict c s = checkEvict_loop c s 0"

text \<open>
  \<open>Purge\<close> ranges over the map \<open>items\<close>; Go leaves the order of that iteration open, so
  the order \<open>ks\<close> in which the keys are visited is an argument.
\<close>

fun Purge_loop ::
  "('k, 'v, 's) LRU \<Rightarrow> 'k list \<Rightarrow> 's
     \<Rightarrow> (panic \<times> ('k, 'v, 's) LRU \<times> 's) + (('k, 'v, 's) LRU \<times> 's)" where
  "Purge_loop c [] s = Inr (c, s)"
| "Purge_loop c (k # ks) s =
     (case items c k of
        None \<Rightarrow> Purge_loop c ks s
      | Some p \<Rightarrow>
          (case onEvict c of
             None \<Rightarrow> Purge_loop (c\<lparr>items := (items c)(k := None)\<rparr>) ks s
           | Some f \<Rightarrow>
               (case cells (evictList c) p of
                  None \<Rightarrow> Inl (NilPointerDereference, c, s)
                | Some v \<Rightarrow>
                    Purge_loop (c\<lparr>items := (items c)(k := None)\<rparr>) ks (f k (val v) s))))"

definition LRU_Purge ::
  "('k, 'v, 's) LRU \<Rightarrow> 'k list \<Rightarrow> 's
     \<Rightarrow> (panic \<times> ('k, 'v, 's) LRU \<times> 's) + (('k, 'v, 's) LRU \<times> 's)" where
  "LRU_Purge c ks s =
     (case Purge_loop c ks s of
        Inl x \<Rightarrow> Inl x
      | Inr (c', s') \<Rightarrow> Inr (c'\<lparr>evictList := list_init (evictList c')\<rparr>, s'))"

text \<open>
  \<open>Add\<close>.  In the branch for a new key, \<open>ent\<close> is the entry that \<open>pushFront\<close> has
  just allocated at \<open>p\<close>.
\<close>

definition LRU_Add ::
  "('k, 'v, 's) LRU \<Rightarrow> 'k \<Rightarrow> 'v \<Rightarrow> 's
     \<Rightarrow> (panic \<times> ('k, 'v, 's) LRU \<times> 's) + (bool \<times> ('k, 'v, 's) LRU \<times> 's)" where
  "LRU_Add c k v s =
     (case items c k of
        Some p \<Rightarrow>
          (case cells (evictList c) p of
             None \<Rightarrow> Inl (NilPointerDereference, c, s)
           | Some ent \<Rightarrow>
               (let l1 = moveToFront (evictList c) p;
                    ent1 = ent\<lparr>val := v\<rparr>;
                    c1 = (case weightCalculator c of
                            None \<Rightarrow> c\<lparr>evictList := store l1 p ent1\<rparr>
                          | Some f \<Rightarrow>
                              c\<lparr>evictList := store l1 p (ent1\<lparr>weight := f v\<rparr>),
                                weightTotal := weightTotal c - weight ent + f v\<rparr>)
                in (case checkEvict c1 s of
                      Inl x \<Rightarrow> Inl x
                    | Inr (n, c2, s2) \<Rightarrow> Inr (n > 0, c2, s2))))
      | None \<Rightarrow>
          (let (p, l1) = pushFront (evictList c) k v;
               ent = \<lparr>key = k, val = v, weight = 0\<rparr>;
               c0 = c\<lparr>evictList := l1, items := (items c)(k \<mapsto> p)\<rparr>;
               c1 = (case weightCalculator c of
                       None \<Rightarrow> c0
                     | Some f \<Rightarrow>
                         c0\<lparr>evictList := store l1 p (ent\<lparr>weight := f v\<rparr>),
                            weightTotal := weightTotal c + f v\<rparr>)
           in (case checkEvict c1 s of
                 Inl x \<Rightarrow> Inl x
               | Inr (n, c2, s2) \<Rightarrow> Inr (n > 0, c2, s2))))"

text \<open>A lookup returns \<open>Some\<close> of the value for \<open>(value, true)\<close>, \<open>None\<close> for the zero
  value and \<open>false\<close>.\<close>

definition LRU_Get ::
  "('k, 'v, 's) LRU \<Rightarrow> 'k \<Rightarrow> panic + ('v option \<times> ('k, 'v, 's) LRU)" where
  "LRU_Get c k =
     (case items c k of
        Some p \<Rightarrow>
          (case cells (evictList c) p of
             None \<Rightarrow> Inl NilPointerDereference
           | Some ent \<Rightarrow> Inr (Some (val ent), c\<lparr>evictList := moveToFront (evictList c) p\<rparr>))
      | None \<Rightarrow> Inr (None, c))"

definition LRU_Contains :: "('k, 'v, 's) LRU \<Rightarrow> 'k \<Rightarrow> bool" where
  "LRU_Contains c k = (case items c k of Some p \<Rightarrow> True | None \<Rightarrow> False)"

definition LRU_Peek :: "('k, 'v, 's) LRU \<Rightarrow> 'k \<Rightarrow> panic + 'v option" where
  "LRU_Peek c k =
     (case items c k of
        Some p \<Rightarrow>
          (case cells (evictList c) p of
             None \<Rightarrow> Inl NilPointerDereference
           | Some ent \<Rightarrow> Inr (Some (val ent)))
      | None \<Rightarrow> Inr None)"

definition LRU_Remove ::
  "('k, 'v, 's) LRU \<Rightarrow> 'k \<Rightarrow> 's
     \<Rightarrow> (panic \<times> ('k, 'v, 's) LRU \<times> 's) + (bool \<times> ('k, 'v, 's) LRU \<times> 's)" where
  "LRU_Remove c k s =
     (case items c k of
        Some p \<Rightarrow>
          (case removeElement c (Some p) s of
             Inl x \<Rightarrow> Inl x
           | Inr (c', s') \<Rightarrow> Inr (True, c', s'))
      | None \<Rightarrow> Inr (False, c, s))"

definition LRU_RemoveOldest ::
  "('k, 'v, 's) LRU \<Rightarrow> 's
     \<Rightarrow> (panic \<times> ('k, 'v, 's) LRU \<times> 's) + (('k \<times> 'v) option \<times> ('k, 'v, 's) LRU \<times> 's)" where
  "LRU_RemoveOldest c s =
     (case list_back (evictList c) of
        Some p \<Rightarrow>
          (case removeElement c (Some p) s of
             Inl x \<Rightarrow> Inl x
           | Inr (c', s') \<Rightarrow>
               (case cells (evictList c') p of
                  None \<Rightarrow> Inl (NilPointerDereference, c', s')
                | Some ent \<Rightarrow> Inr (Some (key ent, val ent), c', s')))
      | None \<Rightarrow> Inr (None, c, s))"

definition LRU_GetOldest :: "('k, 'v, 's) LRU \<Rightarrow> panic + ('k \<times> 'v) option" where
  "LRU_GetOldest c =
     (case list_back (evictList c) of
        Some p \<Rightarrow>
          (case cells (evictList c) p of
             None \<Rightarrow> Inl NilPointerDereference
           | Some ent \<Rightarrow> Inr (Some (key ent, val ent)))
      | None \<Rightarrow> Inr None)"

text \<open>\<open>Keys\<close> walks from the back to the front with \<open>prevEntry\<close>.\<close>

fun keys_from :: "(ptr \<rightharpoonup> ('k, 'v) entry) \<Rightarrow> ptr list \<Rightarrow> panic + 'k list" where
  "keys_from cs [] = Inr []"
| "keys_from cs (p # ps) =
     (case cs p of
        None \<Rightarrow> Inl NilPointerDereference
      | Some ent \<Rightarrow>
          (case keys_from cs ps of
             Inl x \<Rightarrow> Inl x
           | Inr ks \<Rightarrow> Inr (key ent # ks)))"

definition LRU_Keys :: "('k, 'v, 's) LRU \<Rightarrow> panic + 'k list" where
  "LRU_Keys c = keys_from (cells (evictList c)) (rev (order (evictList c)))"

definition LRU_Len :: "('k, 'v, 's) LRU \<Rightarrow> nat" where
  "LRU_Len c = list_length (evictList c)"

definition LRU_WeightTotal :: "('k, 'v, 's) LRU \<Rightarrow> uint64" where
  "LRU_WeightTotal c = weightTotal c"

definition LRU_Resize ::
  "('k, 'v, 's) LRU \<Rightarrow> int \<Rightarrow> 's
     \<Rightarrow> (panic \<times> ('k, 'v, 's) LRU \<times> 's) + (nat \<times> ('k, 'v, 's) LRU \<times> 's)" where
  "LRU_Resize c sz s = checkEvict (c\<lparr>lru_size := sz\<rparr>) s"

definition LRU_ResetWeightLimit ::
  "('k, 'v, 's) LRU \<Rightarrow> uint64 \<Rightarrow> 's
     \<Rightarrow> (panic \<times> ('k, 'v, 's) LRU \<times> 's) + (nat \<times> ('k, 'v, 's) LRU \<times> 's)" where
  "LRU_ResetWeightLimit c wl s = checkEvict (c\<lparr>weightLimit := wl\<rparr>) s"

subsection \<open>The wrapper: type Cache\<close>

text \<open>
  The wrapper registers its own method \<open>onEvicted\<close> as the engine's callback; that
  method appends to the two buffers of the wrapper, so the state of the engine's callback
  is the pair of buffers.  The type \<open>'w\<close> is the state the user's callback works on.
  A slice is the list of its elements; the capacity of a slice is read nowhere in the
  source and is left out.  When the engine panics inside a method of the wrapper, the
  rest of the method does not run: the wrapper is left with the engine and the buffers as
  they are at that moment, the closing block (which would have deferred the delivery) is
  never reached and the user's callback has not been called.
\<close>

record ('k, 'v, 'w) Cache =
  lru :: "('k, 'v, 'k list \<times> 'v list) LRU"
  evictedKeys :: "'k list"
  evictedVals :: "'v list"
  onEvictedCB :: "('k \<Rightarrow> 'v \<Rightarrow> 'w \<Rightarrow> 'w) option"

definition initEvictBuffers :: "('k, 'v, 'w) Cache \<Rightarrow> ('k, 'v, 'w) Cache" where
  "initEvictBuffers c = c\<lparr>evictedKeys := [], evictedVals := []\<rparr>"

definition Cache_onEvicted :: "'k \<Rightarrow> 'v \<Rightarrow> 'k list \<times> 'v list \<Rightarrow> 'k list \<times> 'v list" where
  "Cache_onEvicted k v b = (fst b @ [k], snd b @ [v])"

definition NewWithWeightLimitAndEvict ::
  "int \<Rightarrow> uint64 \<Rightarrow> ('v \<Rightarrow> uint64) option \<Rightarrow> ('k \<Rightarrow> 'v \<Rightarrow> 'w \<Rightarrow> 'w) option
     \<Rightarrow> error + ('k, 'v, 'w) Cache" where
  "NewWithWeightLimitAndEvict sz wl wc onEvicted =
     (let hook = (case onEvicted of None \<Rightarrow> None | Some f \<Rightarrow> Some Cache_onEvicted)
      in (case NewLRUWithWeightLimit sz wl wc hook of
            Inl err \<Rightarrow> Inl err
          | Inr l \<Rightarrow>
              Inr \<lparr>lru = l, evictedKeys = [], evictedVals = [], onEvictedCB = onEvicted\<rparr>))"

definition NewWithEvict ::
  "int \<Rightarrow> ('k \<Rightarrow> 'v \<Rightarrow> 'w \<Rightarrow> 'w) option \<Rightarrow> error + ('k, 'v, 'w) Cache" where
  "NewWithEvict sz onEvicted = NewWithWeightLimitAndEvict sz 0 None onEvicted"

definition New :: "int \<Rightarrow> error + ('k, 'v, 'w) Cache" where
  "New sz = NewWithEvict sz None"

text \<open>
  \<open>collectEvicted\<close> returns the two slices and the wrapper with its buffers reset.
  With \<open>purge\<close> the buffers themselves are handed out and fresh ones installed;
  without it the first \<open>count\<close> elements are copied out and the buffers are cut to
  length 0.  (\<open>make\<close> followed by \<open>copy\<close> would pad the values with zero values if
  the buffer of values were shorter than the buffer of keys; the padding is not
  modelled, \<open>take\<close> returns the shorter list.)
\<close>

definition collectEvicted ::
  "('k, 'v, 'w) Cache \<Rightarrow> bool \<Rightarrow> 'k list \<times> 'v list \<times> ('k, 'v, 'w) Cache" where
  "collectEvicted c purge =
     (let count = length (evictedKeys c)
      in if count = 0 then ([], [], c)
         else if purge then (evictedKeys c, evictedVals c, initEvictBuffers c)
         else (take count (evictedKeys c), take count (evictedVals c),
               c\<lparr>evictedKeys := take 0 (evictedKeys c),
                 evictedVals := take 0 (evictedVals c)\<rparr>))"

fun callEvictCB_loop ::
  "('k \<Rightarrow> 'v \<Rightarrow> 'w \<Rightarrow> 'w) option \<Rightarrow> 'k list \<Rightarrow> 'v list \<Rightarrow> 'w \<Rightarrow> (panic \<times> 'w) + 'w" where
  "callEvictCB_loop cb [] vs w = Inr w"
| "callEvictCB_loop cb (k # ks) [] w = Inl (IndexOutOfRange, w)"
| "callEvictCB_loop cb (k # ks) (v # vs) w =
     (case cb of
        None \<Rightarrow> Inl (NilPointerDereference, w)
      | Some f \<Rightarrow> callEvictCB_loop cb ks vs (f k v w))"

definition callEvictCB ::
  "('k, 'v, 'w) Cache \<Rightarrow> 'k list \<Rightarrow> 'v list \<Rightarrow> 'w \<Rightarrow> (panic \<times> 'w) + 'w" where
  "callEvictCB c ks vs w = callEvictCB_loop (onEvictedCB c) ks vs w"

text \<open>The wrapper after a call of the engine that left the engine \<open>l\<close> and the buffers \<open>b\<close>.\<close>

definition after_engine ::
  "('k, 'v, 'w) Cache \<Rightarrow> ('k, 'v, 'k list \<times> 'v list) LRU \<Rightarrow> 'k list \<times> 'v list
     \<Rightarrow> ('k, 'v, 'w) Cache" where
  "after_engine c l b = c\<lparr>lru := l, evictedKeys := fst b, evictedVals := snd b\<rparr>"

text \<open>
  The block that ends every mutating method,
  \<open>if c.onEvictedCB != nil && gate { ks, vs := c.collectEvicted(purge); defer c.callEvictCB(ks, vs) }\<close>:
  the deferred call runs when the method returns.
\<close>

definition flush ::
  "('k, 'v, 'w) Cache \<Rightarrow> bool \<Rightarrow> bool \<Rightarrow> 'w
     \<Rightarrow> (panic \<times> ('k, 'v, 'w) Cache \<times> 'w) + (('k, 'v, 'w) Cache \<times> 'w)" where
  "flush c gate purge w =
     (if onEvictedCB c \<noteq> None \<and> gate
      then (let (ks, vs, c') = collectEvicted c purge
            in (case callEvictCB c' ks vs w of
                  Inl (x, w') \<Rightarrow> Inl (x, c', w')
                | Inr w' \<Rightarrow> Inr (c', w')))
      else Inr (c, w))"

definition Cache_Purge ::
  "('k, 'v, 'w) Cache \<Rightarrow> 'k list \<Rightarrow> 'w
     \<Rightarrow> (panic \<times> ('k, 'v, 'w) Cache \<times> 'w) + (('k, 'v, 'w) Cache \<times> 'w)" where
  "Cache_Purge c ks w =
     (case LRU_Purge (lru c) ks (evictedKeys c, evictedVals c) of
        Inl (x, l, b) \<Rightarrow> Inl (x, after_engine c l b, w)
      | Inr (l, b) \<Rightarrow>
          (let c1 = after_engine c l b
           in flush c1 (length (evictedKeys c1) > 0) True w))"

definition Cache_Add ::
  "('k, 'v, 'w) Cache \<Rightarrow> 'k \<Rightarrow> 'v \<Rightarrow> 'w
     \<Rightarrow> (panic \<times> ('k, 'v, 'w) Cache \<times> 'w) + (bool \<times> ('k, 'v, 'w) Cache \<times> 'w)" where
  "Cache_Add c k v w =
     (case LRU_Add (lru c) k v (evictedKeys c, evictedVals c) of
        Inl (x, l, b) \<Rightarrow> Inl (x, after_engine c l b, w)
      | Inr (evicted, l, b) \<Rightarrow>
          (case flush (after_engine c l b) evicted False w of
             Inl x \<Rightarrow> Inl x
           | Inr (c', w') \<Rightarrow> Inr (evicted, c', w')))"

definition Cache_Get ::
  "('k, 'v, 'w) Cache \<Rightarrow> 'k \<Rightarrow> panic + ('v option \<times> ('k, 'v, 'w) Cache)" where
  "Cache_Get c k =
     (case LRU_Get (lru c) k of
        Inl x \<Rightarrow> Inl x
      | Inr (value, l) \<Rightarrow> Inr (value, c\<lparr>lru := l\<rparr>))"

definition Cache_Contains :: "('k, 'v, 'w) Cache \<Rightarrow> 'k \<Rightarrow> bool" where
  "Cache_Contains c k = LRU_Contains (lru c) k"

definition Cache_Peek :: "('k, 'v, 'w) Cache \<Rightarrow> 'k \<Rightarrow> panic + 'v option" where
  "Cache_Peek c k = LRU_Peek (lru c) k"

text \<open>The results \<open>(previous, ok, evicted)\<close>; \<open>previous = None\<close> is the zero value.\<close>

definition Cache_GetOrAdd ::
  "('k, 'v, 'w) Cache \<Rightarrow> 'k \<Rightarrow> 'v \<Rightarrow> 'w
     \<Rightarrow> (panic \<times> ('k, 'v, 'w) Cache \<times> 'w) + (('v option \<times> bool \<times> bool) \<times> ('k, 'v, 'w) Cache \<times> 'w)" where
  "Cache_GetOrAdd c k v w =
     (case LRU_Get (lru c) k of
        Inl x \<Rightarrow> Inl (x, c, w)
      | Inr (previous, l) \<Rightarrow>
          (let c0 = c\<lparr>lru := l\<rparr>
           in if previous \<noteq> None then Inr ((previous, True, False), c0, w)
              else (case LRU_Add (lru c0) k v (evictedKeys c0, evictedVals c0) of
                      Inl (x, l', b) \<Rightarrow> Inl (x, after_engine c0 l' b, w)
                    | Inr (evicted, l', b) \<Rightarrow>
                        (case flush (after_engine c0 l' b) evicted False w of
                           Inl x \<Rightarrow> Inl x
                         | Inr (c', w') \<Rightarrow> Inr ((previous, False, evicted), c', w')))))"

definition Cache_ContainsOrAdd ::
  "('k, 'v, 'w) Cache \<Rightarrow> 'k \<Rightarrow> 'v \<Rightarrow> 'w
     \<Rightarrow> (panic \<times> ('k, 'v, 'w) Cache \<times> 'w) + ((bool \<times> bool) \<times> ('k, 'v, 'w) Cache \<times> 'w)" where
  "Cache_ContainsOrAdd c k v w =
     (if LRU_Contains (lru c) k then Inr ((True, False), c, w)
      else (case LRU_Add (lru c) k v (evictedKeys c, evictedVals c) of
              Inl (x, l, b) \<Rightarrow> Inl (x, after_engine c l b, w)
            | Inr (evicted, l, b) \<Rightarrow>
                (case flush (after_engine c l b) evicted False w of
                   Inl x \<Rightarrow> Inl x
                 | Inr (c', w') \<Rightarrow> Inr ((False, evicted), c', w'))))"

definition Cache_PeekOrAdd ::
  "('k, 'v, 'w) Cache \<Rightarrow> 'k \<Rightarrow> 'v \<Rightarrow> 'w
     \<Rightarrow> (panic \<times> ('k, 'v, 'w) Cache \<times> 'w) + (('v option \<times> bool \<times> bool) \<times> ('k, 'v, 'w) Cache \<times> 'w)" where
  "Cache_PeekOrAdd c k v w =
     (case LRU_Peek (lru c) k of
        Inl x \<Rightarrow> Inl (x, c, w)
      | Inr previous \<Rightarrow>
          (if previous \<noteq> None then Inr ((previous, True, False), c, w)
           else (case LRU_Add (lru c) k v (evictedKeys c, evictedVals c) of
                   Inl (x, l, b) \<Rightarrow> Inl (x, after_engine c l b, w)
                 | Inr (evicted, l, b) \<Rightarrow>
                     (case flush (after_engine c l b) evicted False w of
                        Inl x \<Rightarrow> Inl x
                      | Inr (c', w') \<Rightarrow> Inr ((previous, False, evicted), c', w')))))"

definition Cache_Remove ::
  "('k, 'v, 'w) Cache \<Rightarrow> 'k \<Rightarrow> 'w
     \<Rightarrow> (panic \<times> ('k, 'v, 'w) Cache \<times> 'w) + (bool \<times> ('k, 'v, 'w) Cache \<times> 'w)" where
  "Cache_Remove c k w =
     (case LRU_Remove (lru c) k (evictedKeys c, evictedVals c) of
        Inl (x, l, b) \<Rightarrow> Inl (x, after_engine c l b, w)
      | Inr (present, l, b) \<Rightarrow>
          (case flush (after_engine c l b) present False w of
             Inl x \<Rightarrow> Inl x
           | Inr (c', w') \<Rightarrow> Inr (present, c', w')))"

definition Cache_Resize ::
  "('k, 'v, 'w) Cache \<Rightarrow> int \<Rightarrow> 'w
     \<Rightarrow> (panic \<times> ('k, 'v, 'w) Cache \<times> 'w) + (nat \<times> ('k, 'v, 'w) Cache \<times> 'w)" where
  "Cache_Resize c sz w =
     (case LRU_Resize (lru c) sz (evictedKeys c, evictedVals c) of
        Inl (x, l, b) \<Rightarrow> Inl (x, after_engine c l b, w)
      | Inr (evicted, l, b) \<Rightarrow>
          (case flush (after_engine c l b) (evicted > 0) True w of
             Inl x \<Rightarrow> Inl x
           | Inr (c', w') \<Rightarrow> Inr (evicted, c', w')))"

definition Cache_ResetWeightLimit ::
  "('k, 'v, 'w) Cache \<Rightarrow> uint64 \<Rightarrow> 'w
     \<Rightarrow> (panic \<times> ('k, 'v, 'w) Cache \<times> 'w) + (nat \<times> ('k, 'v, 'w) Cache \<times> 'w)" where
  "Cache_ResetWeightLimit c wl w =
     (case LRU_ResetWeightLimit (lru c) wl (evictedKeys c, evictedVals c) of
        Inl (x, l, b) \<Rightarrow> Inl (x, after_engine c l b, w)
      | Inr (evicted, l, b) \<Rightarrow>
          (case flush (after_engine c l b) (evicted > 0) True w of
             Inl x \<Rightarrow> Inl x
           | Inr (c', w') \<Rightarrow> Inr (evicted, c', w')))"

definition Cache_RemoveOldest ::
  "('k, 'v, 'w) Cache \<Rightarrow> 'w
     \<Rightarrow> (panic \<times> ('k, 'v, 'w) Cache \<times> 'w) + (('k \<times> 'v) option \<times> ('k, 'v, 'w) Cache \<times> 'w)" where
  "Cache_RemoveOldest c w =
     (case LRU_RemoveOldest (lru c) (evictedKeys c, evictedVals c) of
        Inl (x, l, b) \<Rightarrow> Inl (x, after_engine c l b, w)
      | Inr (oldest, l, b) \<Rightarrow>
          (case flush (after_engine c l b) (oldest \<noteq> None) True w of
             Inl x \<Rightarrow> Inl x
           | Inr (c', w') \<Rightarrow> Inr (oldest, c', w')))"

definition Cache_GetOldest :: "('k, 'v, 'w) Cache \<Rightarrow> panic + ('k \<times> 'v) option" where
  "Cache_GetOldest c = LRU_GetOldest (lru c)"

definition Cache_Keys :: "('k, 'v, 'w) Cache \<Rightarrow> panic + 'k list" where
  "Cache_Keys c = LRU_Keys (lru c)"

definition Cache_Len :: "('k, 'v, 'w) Cache \<Rightarrow> nat" where
  "Cache_Len c = LRU_Len (lru c)"

definition Cache_WeightTotal :: "('k, 'v, 'w) Cache \<Rightarrow> uint64" where
  "Cache_WeightTotal c = LRU_WeightTotal (lru c)"

section \<open>Invariants and auxiliary definitions\<close>

text \<open>
  List and index agree: no handle occurs twice in the list; every handle of the list has
  an entry, and the index maps the key of that entry to the handle; every handle of the
  index is in the list and has an entry with the key it is indexed by; every handle of the
  list was allocated before \<open>fresh\<close>.
\<close>

definition wf_lru :: "('k, 'v, 's) LRU \<Rightarrow> bool" where
  "wf_lru c \<longleftrightarrow>
     distinct (order (evictList c)) \<and>
     (\<forall>p \<in> set (order (evictList c)).
        \<exists>e. cells (evictList c) p = Some e \<and> items c (key e) = Some p) \<and>
     (\<forall>k p. items c k = Some p \<longrightarrow>
        p \<in> set (order (evictList c)) \<and> (\<exists>e. cells (evictList c) p = Some e \<and> key e = k)) \<and>
     (\<forall>p \<in> set (order (evictList c)). p < fresh (evictList c))"

text \<open>
  The weight an entry should have: the weight function applied to its value, 0 when no
  weight function is configured.
\<close>

definition weightFn :: "('k, 'v, 's) LRU \<Rightarrow> 'v \<Rightarrow> uint64" where
  "weightFn c v = (case weightCalculator c of None \<Rightarrow> 0 | Some f \<Rightarrow> f v)"

text \<open>
  The weight stored in the entry at a handle, and the sum of the stored weights of the
  entries in the list, in \<open>uint64\<close> arithmetic.
\<close>

definition stored_weight :: "('k, 'v, 's) LRU \<Rightarrow> ptr \<Rightarrow> uint64" where
  "stored_weight c p = (case cells (evictList c) p of None \<Rightarrow> 0 | Some e \<Rightarrow> weight e)"

definition stored_weight_sum :: "('k, 'v, 's) LRU \<Rightarrow> uint64" where
  "stored_weight_sum c = sum_list (map (stored_weight c) (order (evictList c)))"

text \<open>
  The sum of \<open>weightFn(value)\<close> over the entries in the list, in \<open>uint64\<close> arithmetic.
\<close>

definition present_weight :: "('k, 'v, 's) LRU \<Rightarrow> ptr \<Rightarrow> uint64" where
  "present_weight c p = (case cells (evictList c) p of None \<Rightarrow> 0 | Some e \<Rightarrow> weightFn c (val e))"

definition present_weight_sum :: "('k, 'v, 's) LRU \<Rightarrow> uint64" where
  "present_weight_sum c = sum_list (map (present_weight c) (order (evictList c)))"

text \<open>Every entry in the list stores the weight of its value.\<close>

definition weights_ok :: "('k, 'v, 's) LRU \<Rightarrow> bool" where
  "weights_ok c \<longleftrightarrow> (\<forall>p \<in> set (order (evictList c)). stored_weight c p = present_weight c p)"

text \<open>The callback fired for the entry at a handle, and for a list of handles in turn.\<close>

definition fire_ptr :: "('k, 'v, 's) LRU \<Rightarrow> ptr \<Rightarrow> 's \<Rightarrow> 's" where
  "fire_ptr c p s = (case cells (evictList c) p of None \<Rightarrow> s | Some e \<Rightarrow> fire c (key e) (val e) s)"

definition fire_all :: "('k, 'v, 's) LRU \<Rightarrow> ptr list \<Rightarrow> 's \<Rightarrow> 's" where
  "fire_all c ps s = foldl (\<lambda>s p. fire_ptr c p s) s ps"

text \<open>Two states with the same bounds, functions and allocated entries.\<close>

definition same_config :: "('k, 'v, 's) LRU \<Rightarrow> ('k, 'v, 's) LRU \<Rightarrow> bool" where
  "same_config c c' \<longleftrightarrow> lru_size c' = lru_size c \<and> weightLimit c' = weightLimit c \<and>
     weightCalculator c' = weightCalculator c \<and> onEvict c' = onEvict c \<and>
     cells (evictList c') = cells (evictList c) \<and> fresh (evictList c') = fresh (evictList c)"

text \<open>What the stored weight total holds beyond the stored weights of the entries.\<close>

definition residual :: "('k, 'v, 's) LRU \<Rightarrow> uint64" where
  "residual c = weightTotal c - stored_weight_sum c"

text \<open>
  The weight accounting: every entry stores the weight of its value, and the stored total
  is the sum of \<open>weightFn(value)\<close> over the entries present.
\<close>

definition acct :: "('k, 'v, 's) LRU \<Rightarrow> bool" where
  "acct c \<longleftrightarrow> weights_ok c \<and> weightTotal c = present_weight_sum c"

text \<open>
  The part of \<open>Add\<close> before the eviction check, see \<open>LRU_Add_eq\<close>; \<open>None\<close> where
  \<open>Add\<close> panics.
\<close>

definition Add_update :: "('k, 'v, 's) LRU \<Rightarrow> 'k \<Rightarrow> 'v \<Rightarrow> ('k, 'v, 's) LRU option" where
  "Add_update c k v =
     (case items c k of
        Some p \<Rightarrow>
          (case cells (evictList c) p of
             None \<Rightarrow> None
           | Some ent \<Rightarrow>
               (let l1 = moveToFront (evictList c) p;
                    ent1 = ent\<lparr>val := v\<rparr>
                in Some (case weightCalculator c of
                            None \<Rightarrow> c\<lparr>evictList := store l1 p ent1\<rparr>
                          | Some f \<Rightarrow>
                              c\<lparr>evictList := store l1 p (ent1\<lparr>weight := f v\<rparr>),
                                weightTotal := weightTotal c - weight ent + f v\<rparr>)))
      | None \<Rightarrow>
          (let (p, l1) = pushFront (evictList c) k v;
               ent = \<lparr>key = k, val = v, weight = 0\<rparr>;
               c0 = c\<lparr>evictList := l1, items := (items c)(k \<mapsto> p)\<rparr>
           in Some (case weightCalculator c of
                       None \<Rightarrow> c0
                     | Some f \<Rightarrow>
                         c0\<lparr>evictList := store l1 p (ent\<lparr>weight := f v\<rparr>),
                            weightTotal := weightTotal c + f v\<rparr>)))"

text \<open>A sequence of \<open>Add\<close> calls.\<close>

fun Add_all ::
  "('k, 'v, 's) LRU \<Rightarrow> ('k \<times> 'v) list \<Rightarrow> 's
     \<Rightarrow> (panic \<times> ('k, 'v, 's) LRU \<times> 's) + (('k, 'v, 's) LRU \<times> 's)" where
  "Add_all c [] s = Inr (c, s)"
| "Add_all c ((k, v) # kvs) s =
     (case LRU_Add c k v s of
        Inl x \<Rightarrow> Inl x
      | Inr (evicted, c', s') \<Rightarrow> Add_all c' kvs s')"

text \<open>
  A cache of size 2 and weight limit 10 with the identity as weight function, holding
  \<open>"a"\<close> (value 3, the older entry) and \<open>"b"\<close> (value 4), with any eviction callback.
  It is the state that \<open>Add("a", 3)\<close> and \<open>Add("b", 4)\<close> leave, see \<open>demo_reached\<close>.
\<close>

definition demo :: "(string \<Rightarrow> uint64 \<Rightarrow> 's \<Rightarrow> 's) option \<Rightarrow> (string, uint64, 's) LRU" where
  "demo cb =
     \<lparr>lru_size = 2,
      evictList = \<lparr>cells = [0 \<mapsto> \<lparr>key = ''a'', val = 3, weight = 3\<rparr>,
                            1 \<mapsto> \<lparr>key = ''b'', val = 4, weight = 4\<rparr>],
                   order = [1, 0], fresh = 2\<rparr>,
      items = [''a'' \<mapsto> 0, ''b'' \<mapsto> 1],
      onEvict = cb, weightTotal = 7, weightLimit = 10,
      weightCalculator = Some (\<lambda>v. v)\<rparr>"

text \<open>A callback that records its calls.\<close>

definition record_call :: "'k \<Rightarrow> 'v \<Rightarrow> ('k \<times> 'v) list \<Rightarrow> ('k \<times> 'v) list" where
  "record_call k v calls = calls @ [(k, v)]"

text \<open>The wrapper around \<open>demo\<close>, with a user callback that records its calls.\<close>

definition demo_cache :: "(string, uint64, (string \<times> uint64) list) Cache" where
  "demo_cache = \<lparr>lru = demo (Some Cache_onEvicted), evictedKeys = [], evictedVals = [],
                  onEvictedCB = Some record_call\<rparr>"

subsection \<open>Sequences of calls\<close>

text \<open>
  A call of a method of the wrapper, with its arguments; a call of \<open>Purge\<close> carries the
  order in which the iteration over the index visits the keys.  A result is what the
  method returns.
\<close>

datatype ('k, 'v) call =
    Call_Purge "'k list"
  | Call_Add 'k 'v
  | Call_Get 'k
  | Call_Contains 'k
  | Call_Peek 'k
  | Call_GetOrAdd 'k 'v
  | Call_ContainsOrAdd 'k 'v
  | Call_PeekOrAdd 'k 'v
  | Call_Remove 'k
  | Call_Resize int
  | Call_ResetWeightLimit uint64
  | Call_RemoveOldest
  | Call_GetOldest
  | Call_Keys
  | Call_Len
  | Call_WeightTotal

datatype ('k, 'v) result =
    Ret_Unit
  | Ret_Bool bool
  | Ret_Value "'v option"
  | Ret_Value_Bool_Bool "'v option" bool bool
  | Ret_Bool_Bool bool bool
  | Ret_Count nat
  | Ret_Entry "('k \<times> 'v) option"
  | Ret_Keys "'k list"
  | Ret_Weight uint64

text \<open>
  Wrapping the value a method returns into a \<open>result\<close>: \<open>ret\<close> for a method that
  returns a new state, \<open>ret_pure\<close> for one that only reads; a panic of the latter
  happens in the state \<open>c\<close>, \<open>w\<close> it was called in.
\<close>

definition ret ::
  "('a \<Rightarrow> ('k, 'v) result) \<Rightarrow> (panic \<times> 'c \<times> 'w) + ('a \<times> 'c \<times> 'w)
     \<Rightarrow> (panic \<times> 'c \<times> 'w) + (('k, 'v) result \<times> 'c \<times> 'w)" where
  "ret f r = (case r of Inl x \<Rightarrow> Inl x | Inr (a, c, w) \<Rightarrow> Inr (f a, c, w))"

definition ret_pure ::
  "('a \<Rightarrow> ('k, 'v) result) \<Rightarrow> 'c \<Rightarrow> 'w \<Rightarrow> panic + 'a
     \<Rightarrow> (panic \<times> 'c \<times> 'w) + (('k, 'v) result \<times> 'c \<times> 'w)" where
  "ret_pure f c w r = (case r of Inl x \<Rightarrow> Inl (x, c, w) | Inr a \<Rightarrow> Inr (f a, c, w))"

text \<open>One call on the wrapper.\<close>

definition Cache_call ::
  "('k, 'v, 'w) Cache \<Rightarrow> ('k, 'v) call \<Rightarrow> 'w
     \<Rightarrow> (panic \<times> ('k, 'v, 'w) Cache \<times> 'w) + (('k, 'v) result \<times> ('k, 'v, 'w) Cache \<times> 'w)" where
  "Cache_call c x w =
     (case x of
        Call_Purge ks \<Rightarrow>
          (case Cache_Purge c ks w of Inl e \<Rightarrow> Inl e | Inr (c', w') \<Rightarrow> Inr (Ret_Unit, c', w'))
      | Call_Add k v \<Rightarrow> ret Ret_Bool (Cache_Add c k v w)
      | Call_Get k \<Rightarrow>
          (case Cache_Get c k of
             Inl e \<Rightarrow> Inl (e, c, w)
           | Inr (value, c') \<Rightarrow> Inr (Ret_Value value, c', w))
      | Call_Contains k \<Rightarrow> Inr (Ret_Bool (Cache_Contains c k), c, w)
      | Call_Peek k \<Rightarrow> ret_pure Ret_Value c w (Cache_Peek c k)
      | Call_GetOrAdd k v \<Rightarrow>
          ret (\<lambda>(previous, ok, evicted). Ret_Value_Bool_Bool previous ok evicted)
            (Cache_GetOrAdd c k v w)
      | Call_ContainsOrAdd k v \<Rightarrow>
          ret (\<lambda>(ok, evicted). Ret_Bool_Bool ok evicted) (Cache_ContainsOrAdd c k v w)
      | Call_PeekOrAdd k v \<Rightarrow>
          ret (\<lambda>(previous, ok, evicted). Ret_Value_Bool_Bool previous ok evicted)
            (Cache_PeekOrAdd c k v w)
      | Call_Remove k \<Rightarrow> ret Ret_Bool (Cache_Remove c k w)
      | Call_Resize sz \<Rightarrow> ret Ret_Count (Cache_Resize c sz w)
      | Call_ResetWeightLimit wl \<Rightarrow> ret Ret_Count (Cache_ResetWeightLimit c wl w)
      | Call_RemoveOldest \<Rightarrow> ret Ret_Entry (Cache_RemoveOldest c w)
      | Call_GetOldest \<Rightarrow> ret_pure Ret_Entry c w (Cache_GetOldest c)
      | Call_Keys \<Rightarrow> ret_pure Ret_Keys c w (Cache_Keys c)
      | Call_Len \<Rightarrow> Inr (Ret_Count (Cache_Len c), c, w)
      | Call_WeightTotal \<Rightarrow> Inr (Ret_Weight (Cache_WeightTotal c), c, w))"

text \<open>
  The same call made on an engine that has the user's callback as its own \<open>onEvict\<close>,
  so that the callback runs at the moment of each eviction.  The three compound methods
  are the wrapper's sequences of engine calls without the buffers.
\<close>

definition LRU_add_on_miss ::
  "('k, 'v, 'w) LRU \<Rightarrow> 'k \<Rightarrow> 'v \<Rightarrow> 'w \<Rightarrow> (bool \<Rightarrow> ('k, 'v) result)
     \<Rightarrow> (panic \<times> ('k, 'v, 'w) LRU \<times> 'w) + (('k, 'v) result \<times> ('k, 'v, 'w) LRU \<times> 'w)" where
  "LRU_add_on_miss l k v w f = ret f (LRU_Add l k v w)"

definition LRU_call ::
  "('k, 'v, 'w) LRU \<Rightarrow> ('k, 'v) call \<Rightarrow> 'w
     \<Rightarrow> (panic \<times> ('k, 'v, 'w) LRU \<times> 'w) + (('k, 'v) result \<times> ('k, 'v, 'w) LRU \<times> 'w)" where
  "LRU_call l x w =
     (case x of
        Call_Purge ks \<Rightarrow>
          (case LRU_Purge l ks w of Inl e \<Rightarrow> Inl e | Inr (l', w') \<Rightarrow> Inr (Ret_Unit, l', w'))
      | Call_Add k v \<Rightarrow> ret Ret_Bool (LRU_Add l k v w)
      | Call_Get k \<Rightarrow>
          (case LRU_Get l k of
             Inl e \<Rightarrow> Inl (e, l, w)
           | Inr (value, l') \<Rightarrow> Inr (Ret_Value value, l', w))
      | Call_Contains k \<Rightarrow> Inr (Ret_Bool (LRU_Contains l k), l, w)
      | Call_Peek k \<Rightarrow> ret_pure Ret_Value l w (LRU_Peek l k)
      | Call_GetOrAdd k v \<Rightarrow>
          (case LRU_Get l k of
             Inl e \<Rightarrow> Inl (e, l, w)
           | Inr (previous, l') \<Rightarrow>
               if previous \<noteq> None then Inr (Ret_Value_Bool_Bool previous True False, l', w)
               else LRU_add_on_miss l' k v w (Ret_Value_Bool_Bool previous False))
      | Call_ContainsOrAdd k v \<Rightarrow>
          (if LRU_Contains l k then Inr (Ret_Bool_Bool True False, l, w)
           else LRU_add_on_miss l k v w (Ret_Bool_Bool False))
      | Call_PeekOrAdd k v \<Rightarrow>
          (case LRU_Peek l k of
             Inl e \<Rightarrow> Inl (e, l, w)
           | Inr previous \<Rightarrow>
               if previous \<noteq> None then Inr (Ret_Value_Bool_Bool previous True False, l, w)
               else LRU_add_on_miss l k v w (Ret_Value_Bool_Bool previous False))
      | Call_Remove k \<Rightarrow> ret Ret_Bool (LRU_Remove l k w)
      | Call_Resize sz \<Rightarrow> ret Ret_Count (LRU_Resize l sz w)
      | Call_ResetWeightLimit wl \<Rightarrow> ret Ret_Count (LRU_ResetWeightLimit l wl w)
      | Call_RemoveOldest \<Rightarrow> ret Ret_Entry (LRU_RemoveOldest l w)
      | Call_GetOldest \<Rightarrow> ret_pure Ret_Entry l w (LRU_GetOldest l)
      | Call_Keys \<Rightarrow> ret_pure Ret_Keys l w (LRU_Keys l)
      | Call_Len \<Rightarrow> Inr (Ret_Count (LRU_Len l), l, w)
      | Call_WeightTotal \<Rightarrow> Inr (Ret_Weight (LRU_WeightTotal l), l, w))"

text \<open>
  A sequence of calls, each on the state the one before left.  A panic ends it: the
  outcome is then the panic, the results of the calls that had returned, and the state in
  which the panic happened.
\<close>

fun run ::
  "('c \<Rightarrow> 'x \<Rightarrow> 'w \<Rightarrow> (panic \<times> 'c \<times> 'w) + ('r \<times> 'c \<times> 'w)) \<Rightarrow> 'c \<Rightarrow> 'x list \<Rightarrow> 'w
     \<Rightarrow> (panic \<times> 'r list \<times> 'c \<times> 'w) + ('r list \<times> 'c \<times> 'w)" where
  "run step c [] w = Inr ([], c, w)"
| "run step c (x # xs) w =
     (case step c x w of
        Inl (e, c', w') \<Rightarrow> Inl (e, [], c', w')
      | Inr (r, c', w') \<Rightarrow>
          (case run step c' xs w' of
             Inl (e, rs, c'', w'') \<Rightarrow> Inl (e, r # rs, c'', w'')
           | Inr (rs, c'', w'') \<Rightarrow> Inr (r # rs, c'', w'')))"

text \<open>Two engines that differ at most in their callback.\<close>

definition same_engine :: "('k, 'v, 's) LRU \<Rightarrow> ('k, 'v, 't) LRU \<Rightarrow> bool" where
  "same_engine a l \<longleftrightarrow>
     lru_size a = lru_size l \<and> evictList a = evictList l \<and> items a = items l \<and>
     weightTotal a = weightTotal l \<and> weightLimit a = weightLimit l \<and>
     weightCalculator a = weightCalculator l"

text \<open>
  Inside a call: the engine of the wrapper with the buffers \<open>b\<close> on one side, the direct
  engine with the state \<open>w\<close> of the user's callback on the other; \<open>w0\<close> is the state
  of the user's callback when the call began.  They correspond when the engines differ
  only in the callback and handing the buffered pairs to the user's callback, in order,
  from \<open>w0\<close> gives \<open>w\<close>.
\<close>

definition sim ::
  "('k \<Rightarrow> 'v \<Rightarrow> 'w \<Rightarrow> 'w) \<Rightarrow> 'w \<Rightarrow> ('k, 'v, 'k list \<times> 'v list) LRU \<times> ('k list \<times> 'v list)
     \<Rightarrow> ('k, 'v, 'w) LRU \<times> 'w \<Rightarrow> bool" where
  "sim cb w0 ab lw \<longleftrightarrow>
     same_engine (fst ab) (fst lw) \<and>
     onEvict (fst ab) = Some Cache_onEvicted \<and> onEvict (fst lw) = Some cb \<and>
     length (fst (snd ab)) = length (snd (snd ab)) \<and>
     callEvictCB_loop (Some cb) (fst (snd ab)) (snd (snd ab)) w0 = Inr (snd lw)"

text \<open>
  Between calls: the wrapper \<open>c\<close> has the user's callback \<open>cb\<close> and empty buffers, its
  engine has the wrapper's \<open>onEvicted\<close> as callback, and that engine differs from the
  direct engine \<open>l\<close>, whose callback is \<open>cb\<close>, in nothing else.
\<close>

definition wraps ::
  "('k \<Rightarrow> 'v \<Rightarrow> 'w \<Rightarrow> 'w) \<Rightarrow> ('k, 'v, 'w) Cache \<Rightarrow> ('k, 'v, 'w) LRU \<Rightarrow> bool" where
  "wraps cb c l \<longleftrightarrow>
     evictedKeys c = [] \<and> evictedVals c = [] \<and> onEvictedCB c = Some cb \<and>
     onEvict (lru c) = Some Cache_onEvicted \<and> onEvict l = Some cb \<and> same_engine (lru c) l"

text \<open>
  After a panic: the wrapper \<open>c\<close> was left with the user's callback in the state \<open>w\<close>
  and with the pairs evicted during the panicking call still in its buffers; the direct
  engine \<open>l\<close> has run the callback on each of them, which took it from \<open>w\<close> to \<open>w'\<close>.
\<close>

definition stranded ::
  "('k \<Rightarrow> 'v \<Rightarrow> 'w \<Rightarrow> 'w) \<Rightarrow> ('k, 'v, 'w) Cache \<Rightarrow> 'w \<Rightarrow> ('k, 'v, 'w) LRU \<Rightarrow> 'w \<Rightarrow> bool" where
  "stranded cb c w l w' \<longleftrightarrow>
     onEvictedCB c = Some cb \<and> sim cb w (lru c, (evictedKeys c, evictedVals c)) (l, w')"

text \<open>The outcome of a call on the wrapper against its outcome on the direct engine.\<close>

abbreviation (input) step_rel where
  "step_rel cb \<equiv> (\<lambda>(r, c', w') (r', l', w''). r = r' \<and> w' = w'' \<and> wraps cb c' l')"

abbreviation (input) panic_rel where
  "panic_rel cb \<equiv> (\<lambda>(e, c', w') (e', l', w''). e = e' \<and> stranded cb c' w' l' w'')"

abbreviation (input) inner_panic_rel where
  "inner_panic_rel cb w0 \<equiv> (\<lambda>(e, ab) (e', lw). e = e' \<and> sim cb w0 ab lw)"
section \<open>Evaluation\<close>

lemmas engine_defs =
  NewLRUWithWeightLimit_def NewLRU_def newList_def list_init_def pushFront_def moveToFront_def
  list_remove_def list_back_def list_length_def store_def fire_def removeElement_def
  checkEvict_def LRU_Purge_def LRU_Add_def LRU_Get_def LRU_Contains_def LRU_Peek_def
  LRU_Remove_def LRU_RemoveOldest_def LRU_GetOldest_def LRU_Keys_def LRU_Len_def
  LRU_WeightTotal_def LRU_Resize_def LRU_ResetWeightLimit_def Let_def

lemmas wrapper_defs =
  NewWithWeightLimitAndEvict_def NewWithEvict_def New_def initEvictBuffers_def
  Cache_onEvicted_def collectEvicted_def callEvictCB_def after_engine_def flush_def
  Cache_Purge_def Cache_Add_def Cache_Get_def Cache_Contains_def Cache_Peek_def
  Cache_GetOrAdd_def Cache_ContainsOrAdd_def Cache_PeekOrAdd_def Cache_Remove_def
  Cache_Resize_def Cache_ResetWeightLimit_def Cache_RemoveOldest_def Cache_GetOldest_def
  Cache_Keys_def Cache_Len_def Cache_WeightTotal_def

section \<open>Lemmas\<close>

subsection \<open>One pass of the eviction check\<close>

lemma same_config_refl [simp]: "same_config c c" by (simp add: same_config_def)

lemma same_config_trans: "same_config a b \<Longrightarrow> same_config b c \<Longrightarrow> same_config a c"
  by (simp add: same_config_def)

lemma distinct_remove_last: "distinct xs \<Longrightarrow> xs \<noteq> [] \<Longrightarrow> remove1 (last xs) xs = butlast xs"
  by (induction xs) (auto simp: remove1_idem)

lemma removeElement_back:
  assumes "order (evictList c) \<noteq> []" "cells (evictList c) (last (order (evictList c))) = Some e"
    "distinct (order (evictList c))"
  shows "removeElement c (list_back (evictList c)) s =
    Inr (c\<lparr>evictList := (evictList c)\<lparr>order := butlast (order (evictList c))\<rparr>,
           items := (items c)(key e := None),
           weightTotal := weightTotal c - weight e\<rparr>, fire c (key e) (val e) s)"
  using assms by (simp add: removeElement_def list_back_def list_remove_def distinct_remove_last)

lemma removeElement_Inr_back:
  assumes "removeElement c (list_back (evictList c)) s = Inr (c', s')" "distinct (order (evictList c))"
  shows "order (evictList c) \<noteq> [] \<and> order (evictList c') = butlast (order (evictList c)) \<and>
     same_config c c' \<and> s' = fire_ptr c (last (order (evictList c))) s
     \<and> weightTotal c' = weightTotal c - stored_weight c (last (order (evictList c)))"
  using assms
  by (auto simp: removeElement_def list_back_def list_remove_def distinct_remove_last same_config_def
       fire_ptr_def stored_weight_def split: option.splits if_splits)

lemma fire_ptr_same: "same_config c c' \<Longrightarrow> fire_ptr c' = fire_ptr c"
  by (intro ext) (simp add: fire_ptr_def same_config_def fire_def split: option.splits)

lemma fire_all_same: "same_config c c' \<Longrightarrow> fire_all c' ps s = fire_all c ps s"
  by (simp add: fire_all_def fire_ptr_same)

subsection \<open>What the eviction check removes\<close>

text \<open>
  When the loop returns after \<open>n' - n\<close> passes, it has cut the last \<open>n' - n\<close> handles
  off the list, fired the callback for them from the back, changed nothing else of the
  configuration, and its condition is false.
\<close>

lemma checkEvict_loop_victims:
  "distinct (order (evictList c)) \<Longrightarrow> checkEvict_loop c s n = Inr (n', c', s') \<Longrightarrow>
     n \<le> n' \<and> n' - n \<le> length (order (evictList c)) \<and>
     order (evictList c') = take (length (order (evictList c)) - (n' - n)) (order (evictList c)) \<and>
     same_config c c' \<and>
     s' = fire_all c (rev (drop (length (order (evictList c)) - (n' - n)) (order (evictList c)))) s \<and>
     int (length (order (evictList c'))) \<le> lru_size c' \<and> weightTotal c' \<le> weightLimit c'"
proof (induction c s n rule: checkEvict_loop.induct)
  case (1 c s n)
  let ?xs = "order (evictList c)"
  show ?case
  proof (cases "int (list_length (evictList c)) > lru_size c \<or> weightTotal c > weightLimit c")
    case False
    then have "checkEvict_loop c s n = Inr (n, c, s)"
      by (subst checkEvict_loop.simps) simp
    with "1.prems" False show ?thesis
      by (simp add: list_length_def fire_all_def not_less)
  next
    case True
    with "1.prems" obtain c1 s1 where r: "removeElement c (list_back (evictList c)) s = Inr (c1, s1)"
      and rest: "checkEvict_loop c1 s1 (n + 1) = Inr (n', c', s')"
      by (simp add: checkEvict_loop.simps[of c s n] split: sum.splits prod.splits)
    from removeElement_Inr_back[OF r "1.prems"(1)]
    have ne: "?xs \<noteq> []" and o1: "order (evictList c1) = butlast ?xs" and sc: "same_config c c1"
      and s1: "s1 = fire_ptr c (last ?xs) s" by auto
    have d1: "distinct (order (evictList c1))" using "1.prems"(1) o1 by (simp add: distinct_butlast)
    note IH = "1.IH"[OF True r refl d1 rest]
    from IH have le: "n + 1 \<le> n'" and le2: "n' - (n + 1) \<le> length (butlast ?xs)" by (auto simp: o1)
    define j where "j = n' - (n + 1)"
    have m: "n' - n = Suc j" using le by (simp add: j_def)
    have "length ?xs \<noteq> 0" using ne by simp
    moreover have "j \<le> length ?xs - 1" using le2 by (simp add: j_def)
    ultimately have jl: "Suc j \<le> length ?xs" by linarith
    have lt: "length ?xs - Suc j < length ?xs" using jl by simp
    have k: "length (butlast ?xs) - j = length ?xs - Suc j" by simp
    have t: "take (length (butlast ?xs) - j) (butlast ?xs) = take (length ?xs - Suc j) ?xs"
      unfolding k by (rule take_butlast[OF lt])
    have dr: "drop (length ?xs - Suc j) ?xs = drop (length (butlast ?xs) - j) (butlast ?xs) @ [last ?xs]"
    proof -
      have "drop (length ?xs - Suc j) (butlast ?xs @ [last ?xs])
            = drop (length ?xs - Suc j) (butlast ?xs) @ [last ?xs]"
        using jl by simp
      then show ?thesis using ne unfolding k by simp
    qed
    from IH have o': "order (evictList c') = take (length ?xs - Suc j) ?xs"
      and sc': "same_config c1 c'"
      and s': "s' = fire_all c1 (rev (drop (length (butlast ?xs) - j) (butlast ?xs))) s1"
      and fin: "int (length (order (evictList c'))) \<le> lru_size c'" "weightTotal c' \<le> weightLimit c'"
      unfolding o1 j_def[symmetric] t by auto
    have "s' = fire_all c (rev (drop (length ?xs - Suc j) ?xs)) s"
      unfolding dr s' s1 fire_all_same[OF sc] by (simp add: fire_all_def)
    with o' fin same_config_trans[OF sc sc'] le jl show ?thesis
      unfolding m by simp
  qed
qed

subsection \<open>The eviction check keeps list and index in agreement\<close>

lemma removeElement_wf:
  assumes "wf_lru c" "removeElement c (Some p) s = Inr (c', s')" "p \<in> set (order (evictList c))"
  shows "wf_lru c'"
proof -
  from assms(2) obtain e where e: "cells (evictList c) p = Some e"
    and c': "c' = c\<lparr>evictList := list_remove (evictList c) p,
                     items := (items c)(key e := None),
                     weightTotal := weightTotal c - weight e\<rparr>"
    by (auto simp: removeElement_def split: option.splits)
  have d: "distinct (order (evictList c))" using assms(1) by (simp add: wf_lru_def)
  have a: "\<And>q. q \<in> set (order (evictList c)) \<Longrightarrow>
        \<exists>e'. cells (evictList c) q = Some e' \<and> items c (key e') = Some q"
    using assms(1) by (simp add: wf_lru_def)
  have b: "\<And>k q. items c k = Some q \<Longrightarrow>
        q \<in> set (order (evictList c)) \<and> (\<exists>e'. cells (evictList c) q = Some e' \<and> key e' = k)"
    using assms(1) by (simp add: wf_lru_def)
  have f: "\<And>q. q \<in> set (order (evictList c)) \<Longrightarrow> q < fresh (evictList c)"
    using assms(1) by (simp add: wf_lru_def)
  have pk: "items c (key e) = Some p" using a[OF assms(3)] e by auto
  have o': "order (evictList c') = remove1 p (order (evictList c))"
    and cl': "cells (evictList c') = cells (evictList c)"
    and fr': "fresh (evictList c') = fresh (evictList c)"
    and it': "items c' = (items c)(key e := None)"
    by (simp_all add: c' list_remove_def)
  have s': "set (order (evictList c')) = set (order (evictList c)) - {p}"
    using d by (simp add: o')
  have 1: "distinct (order (evictList c'))" using d by (simp add: o')
  have 2: "\<exists>e'. cells (evictList c') q = Some e' \<and> items c' (key e') = Some q"
    if "q \<in> set (order (evictList c'))" for q
  proof -
    from that have q: "q \<in> set (order (evictList c))" "q \<noteq> p" by (auto simp: s')
    then obtain e' where e': "cells (evictList c) q = Some e'" "items c (key e') = Some q"
      using a by blast
    with pk q have "key e' \<noteq> key e" by auto
    with e' show ?thesis by (simp add: cl' it')
  qed
  have 3: "q \<in> set (order (evictList c')) \<and> (\<exists>e'. cells (evictList c') q = Some e' \<and> key e' = k)"
    if "items c' k = Some q" for k q
  proof -
    from that have k: "k \<noteq> key e" "items c k = Some q" by (auto simp: it' split: if_splits)
    with b[of k q] e show ?thesis by (auto simp: s' cl')
  qed
  have 4: "q < fresh (evictList c')" if "q \<in> set (order (evictList c'))" for q
    using that f by (simp add: s' fr')
  show ?thesis
    unfolding wf_lru_def using 1 2 3 4 by blast
qed

lemma list_back_in: "list_back l = Some p \<Longrightarrow> p \<in> set (order l)"
  by (auto simp: list_back_def split: if_splits)

lemma sum_list_butlast_word:
  fixes f :: "'a \<Rightarrow> uint64"
  shows "xs \<noteq> [] \<Longrightarrow> sum_list (map f (butlast xs)) = sum_list (map f xs) - f (last xs)"
  by (induction xs) auto

lemma removeElement_back_residual:
  assumes "removeElement c (list_back (evictList c)) s = Inr (c', s')" "distinct (order (evictList c))"
  shows "residual c' = residual c"
proof -
  from removeElement_Inr_back[OF assms]
  have ne: "order (evictList c) \<noteq> []" and o: "order (evictList c') = butlast (order (evictList c))"
    and sc: "same_config c c'"
    and wt: "weightTotal c' = weightTotal c - stored_weight c (last (order (evictList c)))" by auto
  have sw: "stored_weight c' = stored_weight c"
    using sc by (intro ext) (simp add: stored_weight_def same_config_def)
  show ?thesis
    by (simp add: residual_def stored_weight_sum_def o sw wt sum_list_butlast_word[OF ne])
qed

lemma checkEvict_loop_preserves:
  "wf_lru c \<Longrightarrow> checkEvict_loop c s n = Inr (n', c', s') \<Longrightarrow> wf_lru c' \<and> residual c' = residual c"
proof (induction c s n rule: checkEvict_loop.induct)
  case (1 c s n)
  show ?case
  proof (cases "int (list_length (evictList c)) > lru_size c \<or> weightTotal c > weightLimit c")
    case False
    then have "checkEvict_loop c s n = Inr (n, c, s)"
      by (subst checkEvict_loop.simps) simp
    with "1.prems" show ?thesis by simp
  next
    case True
    with "1.prems" obtain c1 s1 where r: "removeElement c (list_back (evictList c)) s = Inr (c1, s1)"
      and rest: "checkEvict_loop c1 s1 (n + 1) = Inr (n', c', s')"
      by (simp add: checkEvict_loop.simps[of c s n] split: sum.splits prod.splits)
    have d: "distinct (order (evictList c))" using "1.prems"(1) by (simp add: wf_lru_def)
    from r obtain p where p: "list_back (evictList c) = Some p"
      by (auto simp: removeElement_def split: option.splits)
    have w1: "wf_lru c1" using removeElement_wf[OF "1.prems"(1) r[unfolded p] list_back_in[OF p]] .
    from "1.IH"[OF True r refl w1 rest] removeElement_back_residual[OF r d]
    show ?thesis by simp
  qed
qed

text \<open>
  The check returns when the size is not negative and what the stored total holds beyond
  the weights of the entries is within the limit: the condition is then false at the
  latest on the empty list.
\<close>

lemma checkEvict_loop_succeeds:
  "wf_lru c \<Longrightarrow> 0 \<le> lru_size c \<Longrightarrow> residual c \<le> weightLimit c \<Longrightarrow>
     \<exists>n' c' s'. checkEvict_loop c s n = Inr (n', c', s')"
proof (induction c s n rule: checkEvict_loop.induct)
  case (1 c s n)
  show ?case
  proof (cases "int (list_length (evictList c)) > lru_size c \<or> weightTotal c > weightLimit c")
    case False
    then have "checkEvict_loop c s n = Inr (n, c, s)"
      by (subst checkEvict_loop.simps) simp
    then show ?thesis by simp
  next
    case True
    have d: "distinct (order (evictList c))" using "1.prems"(1) by (simp add: wf_lru_def)
    have ne: "order (evictList c) \<noteq> []"
    proof
      assume "order (evictList c) = []"
      with "1.prems" True show False
        by (simp add: list_length_def residual_def stored_weight_sum_def)
    qed
    then have "last (order (evictList c)) \<in> set (order (evictList c))" by simp
    then obtain e where e: "cells (evictList c) (last (order (evictList c))) = Some e"
      using "1.prems"(1) by (auto simp: wf_lru_def)
    note r = removeElement_back[OF ne e d, of s]
    let ?c1 = "c\<lparr>evictList := (evictList c)\<lparr>order := butlast (order (evictList c))\<rparr>,
           items := (items c)(key e := None),
           weightTotal := weightTotal c - weight e\<rparr>"
    let ?s1 = "fire c (key e) (val e) s"
    have p: "list_back (evictList c) = Some (last (order (evictList c)))"
      using ne by (simp add: list_back_def)
    have w1: "wf_lru ?c1"
      using removeElement_wf[OF "1.prems"(1) r[unfolded p]] ne by simp
    have r1: "residual ?c1 = residual c" using removeElement_back_residual[OF r d] .
    have "\<exists>n' c' s'. checkEvict_loop ?c1 ?s1 (n + 1) = Inr (n', c', s')"
      using "1.IH"[OF True r refl w1] "1.prems" r1 by simp
    then show ?thesis
      using True r by (subst checkEvict_loop.simps) simp
  qed
qed

subsection \<open>Add: the update before the eviction check\<close>

lemma LRU_Add_eq:
  "LRU_Add c k v s =
     (case Add_update c k v of
        None \<Rightarrow> Inl (NilPointerDereference, c, s)
      | Some c1 \<Rightarrow>
          (case checkEvict c1 s of
             Inl x \<Rightarrow> Inl x
           | Inr (n, c2, s2) \<Rightarrow> Inr (n > 0, c2, s2)))"
  by (simp add: LRU_Add_def Add_update_def Let_def pushFront_def split: option.splits)

lemma sum_list_map_eq_on:
  fixes f g :: "'a \<Rightarrow> uint64"
  shows "(\<And>x. x \<in> set xs \<Longrightarrow> f x = g x) \<Longrightarrow> sum_list (map f xs) = sum_list (map g xs)"
  by (induction xs) auto

lemma weights_ok_sums: "weights_ok c \<Longrightarrow> stored_weight_sum c = present_weight_sum c"
  unfolding stored_weight_sum_def present_weight_sum_def weights_ok_def
  by (rule sum_list_map_eq_on) simp

lemma acct_iff: "acct c \<longleftrightarrow> weights_ok c \<and> residual c = 0"
  using weights_ok_sums[of c] by (auto simp: acct_def residual_def)

lemma Add_update_present:
  assumes wf: "wf_lru c" and it: "items c k = Some p"
  shows "\<exists>ent c1. cells (evictList c) p = Some ent \<and> key ent = k \<and> Add_update c k v = Some c1 \<and>
      order (evictList c1) = p # remove1 p (order (evictList c)) \<and>
      cells (evictList c1) = (cells (evictList c))(p \<mapsto> ent\<lparr>val := v, weight := (case weightCalculator c of None \<Rightarrow> weight ent | Some f \<Rightarrow> f v)\<rparr>) \<and>
      fresh (evictList c1) = fresh (evictList c) \<and>
      items c1 = items c \<and>
      weightTotal c1 = (case weightCalculator c of None \<Rightarrow> weightTotal c | Some f \<Rightarrow> weightTotal c - weight ent + f v) \<and>
      lru_size c1 = lru_size c \<and> weightLimit c1 = weightLimit c \<and>
      weightCalculator c1 = weightCalculator c \<and> onEvict c1 = onEvict c"
proof -
  from wf it obtain ent where e: "cells (evictList c) p = Some ent" "key ent = k"
    unfolding wf_lru_def by blast
  then show ?thesis using it
    by (cases "weightCalculator c") (simp_all add: Add_update_def Let_def moveToFront_def store_def)
qed

lemma Add_update_absent:
  assumes it: "items c k = None"
  shows "\<exists>c1. Add_update c k v = Some c1 \<and>
      order (evictList c1) = fresh (evictList c) # order (evictList c) \<and>
      cells (evictList c1) = (cells (evictList c))(fresh (evictList c) \<mapsto> \<lparr>key = k, val = v, weight = weightFn c v\<rparr>) \<and>
      fresh (evictList c1) = Suc (fresh (evictList c)) \<and>
      items c1 = (items c)(k \<mapsto> fresh (evictList c)) \<and>
      weightTotal c1 = weightTotal c + weightFn c v \<and>
      lru_size c1 = lru_size c \<and> weightLimit c1 = weightLimit c \<and>
      weightCalculator c1 = weightCalculator c \<and> onEvict c1 = onEvict c"
  using it
  by (cases "weightCalculator c") (simp_all add: Add_update_def Let_def pushFront_def store_def weightFn_def)

lemma stored_sum_remove1:
  assumes "p \<in> set (order (evictList c))"
  shows "stored_weight_sum c = stored_weight c p + sum_list (map (stored_weight c) (remove1 p (order (evictList c))))"
  unfolding stored_weight_sum_def using assms by (rule sum_list_map_remove1)

lemma Add_update_present_inv:
  assumes wf: "wf_lru c" and it: "items c k = Some p"
  shows "\<exists>c1. Add_update c k v = Some c1 \<and> wf_lru c1 \<and> residual c1 = residual c \<and>
      (weights_ok c \<longrightarrow> weights_ok c1 \<and> stored_weight c1 p = weightFn c v) \<and>
      order (evictList c1) = p # remove1 p (order (evictList c)) \<and>
      items c1 = items c \<and>
      lru_size c1 = lru_size c \<and> weightLimit c1 = weightLimit c \<and>
      weightCalculator c1 = weightCalculator c \<and> onEvict c1 = onEvict c"
proof -
  let ?w = "\<lambda>ent. case weightCalculator c of None \<Rightarrow> weight ent | Some f \<Rightarrow> f v"
  from Add_update_present[OF wf it, of v] obtain ent c1 where
    e: "cells (evictList c) p = Some ent" and ke: "key ent = k" and
    c1: "Add_update c k v = Some c1" and
    o1: "order (evictList c1) = p # remove1 p (order (evictList c))" and
    cl1: "cells (evictList c1) = (cells (evictList c))(p \<mapsto> ent\<lparr>val := v, weight := ?w ent\<rparr>)" and
    fr1: "fresh (evictList c1) = fresh (evictList c)" and
    it1: "items c1 = items c" and
    wt1: "weightTotal c1 = (case weightCalculator c of None \<Rightarrow> weightTotal c | Some f \<Rightarrow> weightTotal c - weight ent + f v)" and
    cfg: "lru_size c1 = lru_size c" "weightLimit c1 = weightLimit c"
      "weightCalculator c1 = weightCalculator c" "onEvict c1 = onEvict c"
    by blast
  have d: "distinct (order (evictList c))" using wf by (simp add: wf_lru_def)
  have a: "\<And>q. q \<in> set (order (evictList c)) \<Longrightarrow>
        \<exists>e'. cells (evictList c) q = Some e' \<and> items c (key e') = Some q"
    using wf by (simp add: wf_lru_def)
  have b: "\<And>k q. items c k = Some q \<Longrightarrow>
        q \<in> set (order (evictList c)) \<and> (\<exists>e'. cells (evictList c) q = Some e' \<and> key e' = k)"
    using wf by (simp add: wf_lru_def)
  have f: "\<And>q. q \<in> set (order (evictList c)) \<Longrightarrow> q < fresh (evictList c)"
    using wf by (simp add: wf_lru_def)
  have pin: "p \<in> set (order (evictList c))" using b[OF it] by simp
  have s1: "set (order (evictList c1)) = set (order (evictList c))"
    using pin d by (auto simp: o1)
  have 1: "distinct (order (evictList c1))" using d by (simp add: o1)
  have 2: "\<exists>e'. cells (evictList c1) q = Some e' \<and> items c1 (key e') = Some q"
    if "q \<in> set (order (evictList c1))" for q
    using that a[of q] it ke by (cases "q = p") (auto simp: s1 cl1 it1)
  have 3: "q \<in> set (order (evictList c1)) \<and> (\<exists>e'. cells (evictList c1) q = Some e' \<and> key e' = k')"
    if "items c1 k' = Some q" for k' q
    using that b[of k' q] e ke by (cases "q = p") (auto simp: s1 cl1 it1)
  have 4: "q < fresh (evictList c1)" if "q \<in> set (order (evictList c1))" for q
    using that f by (simp add: s1 fr1)
  have wf1: "wf_lru c1" unfolding wf_lru_def using 1 2 3 4 by blast
  have swp: "stored_weight c1 p = ?w ent" by (simp add: stored_weight_def cl1)
  have swq: "stored_weight c1 q = stored_weight c q" if "q \<noteq> p" for q
    using that by (simp add: stored_weight_def cl1)
  have pn: "p \<notin> set (remove1 p (order (evictList c)))" using d by simp
  have "sum_list (map (stored_weight c1) (remove1 p (order (evictList c))))
      = sum_list (map (stored_weight c) (remove1 p (order (evictList c))))"
    by (rule sum_list_map_eq_on) (use pn swq in metis)
  then have sum1: "stored_weight_sum c1 = ?w ent + (stored_weight_sum c - weight ent)"
    using stored_sum_remove1[OF pin] e
    by (simp add: stored_weight_sum_def[of c1] o1 swp stored_weight_def[of c p])
  have res: "residual c1 = residual c"
    by (cases "weightCalculator c") (simp_all add: residual_def sum1 wt1)
  have wok: "weights_ok c1 \<and> stored_weight c1 p = weightFn c v" if wo: "weights_ok c"
  proof -
    from wo pin have "stored_weight c p = present_weight c p" by (simp add: weights_ok_def)
    then have we: "weight ent = weightFn c (val ent)" using e by (simp add: stored_weight_def present_weight_def)
    have wfn: "weightFn c1 = weightFn c" by (intro ext) (simp add: weightFn_def cfg)
    have pp: "stored_weight c1 p = weightFn c v"
      using we by (cases "weightCalculator c") (simp_all add: swp weightFn_def)
    have "present_weight c1 p = weightFn c v" by (simp add: present_weight_def cl1 wfn)
    moreover have "present_weight c1 q = present_weight c q" if "q \<noteq> p" for q
      using that by (simp add: present_weight_def cl1 wfn split: option.splits)
    ultimately have "weights_ok c1"
      unfolding weights_ok_def s1 using wo pp swq by (metis weights_ok_def)
    with pp show ?thesis by simp
  qed
  show ?thesis using c1 wf1 res wok o1 it1 cfg by blast
qed

lemma Add_update_absent_inv:
  assumes wf: "wf_lru c" and it: "items c k = None"
  shows "\<exists>c1. Add_update c k v = Some c1 \<and> wf_lru c1 \<and> residual c1 = residual c \<and>
      (weights_ok c \<longrightarrow> weights_ok c1) \<and>
      order (evictList c1) = fresh (evictList c) # order (evictList c) \<and>
      lru_size c1 = lru_size c \<and> weightLimit c1 = weightLimit c \<and>
      weightCalculator c1 = weightCalculator c \<and> onEvict c1 = onEvict c"
proof -
  let ?p = "fresh (evictList c)"
  from Add_update_absent[OF it, of v] obtain c1 where
    c1: "Add_update c k v = Some c1" and
    o1: "order (evictList c1) = ?p # order (evictList c)" and
    cl1: "cells (evictList c1) = (cells (evictList c))(?p \<mapsto> \<lparr>key = k, val = v, weight = weightFn c v\<rparr>)" and
    fr1: "fresh (evictList c1) = Suc ?p" and
    it1: "items c1 = (items c)(k \<mapsto> ?p)" and
    wt1: "weightTotal c1 = weightTotal c + weightFn c v" and
    cfg: "lru_size c1 = lru_size c" "weightLimit c1 = weightLimit c"
      "weightCalculator c1 = weightCalculator c" "onEvict c1 = onEvict c"
    by blast
  have d: "distinct (order (evictList c))" using wf by (simp add: wf_lru_def)
  have a: "\<And>q. q \<in> set (order (evictList c)) \<Longrightarrow>
        \<exists>e'. cells (evictList c) q = Some e' \<and> items c (key e') = Some q"
    using wf by (simp add: wf_lru_def)
  have b: "\<And>k q. items c k = Some q \<Longrightarrow>
        q \<in> set (order (evictList c)) \<and> (\<exists>e'. cells (evictList c) q = Some e' \<and> key e' = k)"
    using wf by (simp add: wf_lru_def)
  have f: "\<And>q. q \<in> set (order (evictList c)) \<Longrightarrow> q < ?p"
    using wf by (simp add: wf_lru_def)
  have pn: "?p \<notin> set (order (evictList c))" using f by blast
  have 1: "distinct (order (evictList c1))" using d pn by (simp add: o1)
  have 2: "\<exists>e'. cells (evictList c1) q = Some e' \<and> items c1 (key e') = Some q"
    if "q \<in> set (order (evictList c1))" for q
  proof (cases "q = ?p")
    case True then show ?thesis by (simp add: cl1 it1)
  next
    case False
    with that have "q \<in> set (order (evictList c))" by (simp add: o1)
    from a[OF this] obtain e' where e': "cells (evictList c) q = Some e'" "items c (key e') = Some q" by blast
    with it have "key e' \<noteq> k" by auto
    with e' False show ?thesis by (simp add: cl1 it1)
  qed
  have 3: "q \<in> set (order (evictList c1)) \<and> (\<exists>e'. cells (evictList c1) q = Some e' \<and> key e' = k')"
    if "items c1 k' = Some q" for k' q
  proof (cases "k' = k")
    case True with that show ?thesis by (simp add: it1 o1 cl1)
  next
    case False
    with that have "items c k' = Some q" by (simp add: it1)
    from b[OF this] pn show ?thesis by (auto simp: o1 cl1)
  qed
  have 4: "q < fresh (evictList c1)" if "q \<in> set (order (evictList c1))" for q
    using that f[of q] by (auto simp: o1 fr1)
  have wf1: "wf_lru c1" unfolding wf_lru_def using 1 2 3 4 by blast
  have swp: "stored_weight c1 ?p = weightFn c v" by (simp add: stored_weight_def cl1)
  have swq: "stored_weight c1 q = stored_weight c q" if "q \<noteq> ?p" for q
    using that by (simp add: stored_weight_def cl1)
  have "sum_list (map (stored_weight c1) (order (evictList c)))
      = sum_list (map (stored_weight c) (order (evictList c)))"
    by (rule sum_list_map_eq_on) (use pn swq in metis)
  then have sum1: "stored_weight_sum c1 = weightFn c v + stored_weight_sum c"
    by (simp add: stored_weight_sum_def o1 swp)
  have res: "residual c1 = residual c"
    by (simp add: residual_def sum1 wt1)
  have wok: "weights_ok c1" if wo: "weights_ok c"
  proof -
    have wfn: "weightFn c1 = weightFn c" by (intro ext) (simp add: weightFn_def cfg)
    have "present_weight c1 ?p = weightFn c v" by (simp add: present_weight_def cl1 wfn)
    moreover have "present_weight c1 q = present_weight c q" if "q \<noteq> ?p" for q
      using that by (simp add: present_weight_def cl1 wfn split: option.splits)
    ultimately show "weights_ok c1"
      unfolding weights_ok_def o1 using wo swp swq pn by (metis set_ConsD weights_ok_def)
  qed
  show ?thesis using c1 wf1 res wok o1 cfg by blast
qed

subsection \<open>The invariants through the eviction check and through Add\<close>

lemma same_config_weights:
  assumes "same_config c c'"
  shows "stored_weight c' = stored_weight c" "present_weight c' = present_weight c"
  using assms by (auto simp: fun_eq_iff stored_weight_def present_weight_def weightFn_def same_config_def
      split: option.splits)

lemma checkEvict_loop_weights_ok:
  assumes "distinct (order (evictList c))" "checkEvict_loop c s n = Inr (n', c', s')" "weights_ok c"
  shows "weights_ok c'"
proof -
  from checkEvict_loop_victims[OF assms(1,2)]
  have o: "order (evictList c') = take (length (order (evictList c)) - (n' - n)) (order (evictList c))"
    and sc: "same_config c c'" by auto
  have "set (order (evictList c')) \<subseteq> set (order (evictList c))"
    unfolding o by (rule set_take_subset)
  with assms(3) show ?thesis
    by (auto simp: weights_ok_def same_config_weights[OF sc])
qed

lemma checkEvict_inv:
  assumes "wf_lru c" "acct c" "0 \<le> lru_size c"
  shows "\<exists>n c' s'. checkEvict c s = Inr (n, c', s') \<and> wf_lru c' \<and> acct c' \<and> same_config c c' \<and>
     int (length (order (evictList c'))) \<le> lru_size c' \<and> weightTotal c' \<le> weightLimit c' \<and>
     n \<le> length (order (evictList c)) \<and>
     order (evictList c') = take (length (order (evictList c)) - n) (order (evictList c))"
proof -
  have r0: "residual c = 0" using assms(2) by (simp add: acct_iff)
  have d: "distinct (order (evictList c))" using assms(1) by (simp add: wf_lru_def)
  from checkEvict_loop_succeeds[OF assms(1,3), of s 0] r0
  obtain n c' s' where r: "checkEvict_loop c s 0 = Inr (n, c', s')" by auto
  from checkEvict_loop_preserves[OF assms(1) r] r0
  have "wf_lru c'" "residual c' = 0" by auto
  moreover have "weights_ok c'"
    using checkEvict_loop_weights_ok[OF d r] assms(2) by (simp add: acct_iff)
  ultimately have "wf_lru c'" "acct c'" by (simp_all add: acct_iff)
  moreover note v = checkEvict_loop_victims[OF d r, simplified]
  from v have "same_config c c'" "int (length (order (evictList c'))) \<le> lru_size c'"
    "weightTotal c' \<le> weightLimit c'" "n \<le> length (order (evictList c))"
    "order (evictList c') = take (length (order (evictList c)) - n) (order (evictList c))"
    by blast+
  ultimately show ?thesis
    unfolding checkEvict_def using r by blast
qed

lemma LRU_Add_inv:
  assumes "wf_lru c" "acct c" "0 \<le> lru_size c"
  shows "\<exists>ev c' s'. LRU_Add c k v s = Inr (ev, c', s') \<and> wf_lru c' \<and> acct c' \<and>
     lru_size c' = lru_size c \<and> weightLimit c' = weightLimit c \<and>
     weightCalculator c' = weightCalculator c \<and> onEvict c' = onEvict c \<and>
     int (LRU_Len c') \<le> lru_size c' \<and> LRU_WeightTotal c' \<le> weightLimit c'"
proof -
  have "\<exists>c1. Add_update c k v = Some c1 \<and> wf_lru c1 \<and> acct c1 \<and>
      lru_size c1 = lru_size c \<and> weightLimit c1 = weightLimit c \<and>
      weightCalculator c1 = weightCalculator c \<and> onEvict c1 = onEvict c"
  proof (cases "items c k")
    case None
    from Add_update_absent_inv[OF assms(1) None, of v] assms(2) show ?thesis
      by (auto simp: acct_iff)
  next
    case (Some p)
    from Add_update_present_inv[OF assms(1) Some, of v] assms(2) show ?thesis
      by (auto simp: acct_iff)
  qed
  then obtain c1 where c1: "Add_update c k v = Some c1" "wf_lru c1" "acct c1"
    and cfg: "lru_size c1 = lru_size c" "weightLimit c1 = weightLimit c"
      "weightCalculator c1 = weightCalculator c" "onEvict c1 = onEvict c" by blast
  from checkEvict_inv[OF c1(2,3), of s] assms(3) cfg(1)
  obtain n c' s' where r: "checkEvict c1 s = Inr (n, c', s')" "wf_lru c'" "acct c'" "same_config c1 c'"
     "int (length (order (evictList c'))) \<le> lru_size c'" "weightTotal c' \<le> weightLimit c'"
    by auto
  show ?thesis
    using c1(1) r cfg
    by (simp add: LRU_Add_eq LRU_Len_def list_length_def LRU_WeightTotal_def same_config_def)
qed

lemma Add_all_inv:
  "wf_lru c \<Longrightarrow> acct c \<Longrightarrow> 0 \<le> lru_size c \<Longrightarrow>
   int (LRU_Len c) \<le> lru_size c \<Longrightarrow> LRU_WeightTotal c \<le> weightLimit c \<Longrightarrow>
   \<exists>c' s'. Add_all c kvs s = Inr (c', s') \<and> wf_lru c' \<and> acct c' \<and>
     lru_size c' = lru_size c \<and> weightLimit c' = weightLimit c \<and>
     weightCalculator c' = weightCalculator c \<and> onEvict c' = onEvict c \<and>
     int (LRU_Len c') \<le> lru_size c' \<and> LRU_WeightTotal c' \<le> weightLimit c'"
proof (induction kvs arbitrary: c s)
  case Nil
  then show ?case by simp
next
  case (Cons kv kvs)
  obtain k v where kv: "kv = (k, v)" by (cases kv)
  from LRU_Add_inv[OF Cons.prems(1,2,3), of k v s]
  obtain ev c1 s1 where a: "LRU_Add c k v s = Inr (ev, c1, s1)" "wf_lru c1" "acct c1"
    "lru_size c1 = lru_size c" "weightLimit c1 = weightLimit c"
     "weightCalculator c1 = weightCalculator c" "onEvict c1 = onEvict c"
     "int (LRU_Len c1) \<le> lru_size c1" "LRU_WeightTotal c1 \<le> weightLimit c1" by blast
  from Cons.IH[OF a(2,3) _ a(8,9), of s1] a(4) Cons.prems(3)
  obtain c' s' where "Add_all c1 kvs s1 = Inr (c', s')" "wf_lru c'" "acct c'"
     "lru_size c' = lru_size c1" "weightLimit c' = weightLimit c1"
     "weightCalculator c' = weightCalculator c1" "onEvict c' = onEvict c1"
     "int (LRU_Len c') \<le> lru_size c'" "LRU_WeightTotal c' \<le> weightLimit c'" by auto
  with a show ?case by (simp add: kv)
qed

lemma new_inv:
  assumes "NewLRUWithWeightLimit sz wl wc cb = Inr c"
  shows "wf_lru c \<and> acct c \<and> 0 < lru_size c \<and> LRU_Len c = 0 \<and> LRU_WeightTotal c = 0
     \<and> lru_size c = sz \<and> weightLimit c = wl \<and> weightCalculator c = wc \<and> onEvict c = cb"
  using assms
  by (auto simp: NewLRUWithWeightLimit_def wf_lru_def acct_def weights_ok_def present_weight_sum_def
      newList_def LRU_Len_def list_length_def LRU_WeightTotal_def split: if_splits)

subsection \<open>Keys\<close>


lemma keys_from_allocated:
  "(\<And>p. p \<in> set ps \<Longrightarrow> \<exists>e. cs p = Some e) \<Longrightarrow> \<exists>ks. keys_from cs ps = Inr ks \<and> length ks = length ps"
proof (induction ps)
  case Nil
  then show ?case by simp
next
  case (Cons p ps)
  then obtain e where "cs p = Some e" by auto
  moreover from Cons obtain ks where "keys_from cs ps = Inr ks" "length ks = length ps" by auto
  ultimately show ?case by simp
qed

lemma wf_Keys: "wf_lru c \<Longrightarrow> \<exists>ks. LRU_Keys c = Inr ks \<and> length ks = LRU_Len c"
proof -
  assume "wf_lru c"
  then have "\<exists>e. cells (evictList c) p = Some e" if "p \<in> set (rev (order (evictList c)))" for p
    using that unfolding wf_lru_def by auto
  from keys_from_allocated[of "rev (order (evictList c))" "cells (evictList c)", OF this]
  show ?thesis by (simp add: LRU_Keys_def LRU_Len_def list_length_def)
qed

subsection \<open>Changing the size\<close>

lemma wf_size_update: "wf_lru (c\<lparr>lru_size := sz\<rparr>) = wf_lru c"
  by (simp add: wf_lru_def)

lemma residual_size_update: "residual (c\<lparr>lru_size := sz\<rparr>) = residual c"
  by (simp add: residual_def stored_weight_sum_def stored_weight_def[abs_def])

lemma fire_all_size_update: "fire_all (c\<lparr>lru_size := sz\<rparr>) = fire_all c"
proof -
  have "fire_ptr (c\<lparr>lru_size := sz\<rparr>) = fire_ptr c"
    by (intro ext) (simp add: fire_ptr_def fire_def split: option.splits)
  then show ?thesis by (intro ext) (simp add: fire_all_def)
qed

text \<open>
  The entry at the front stays when the size is at least 1, the stored total is the sum of
  the stored weights, and the weight of that entry is within the limit.
\<close>

lemma checkEvict_loop_keeps_front:
  "wf_lru c \<Longrightarrow> residual c = 0 \<Longrightarrow> 1 \<le> lru_size c \<Longrightarrow> order (evictList c) = p # rest \<Longrightarrow>
   stored_weight c p \<le> weightLimit c \<Longrightarrow> checkEvict_loop c s n = Inr (n', c', s') \<Longrightarrow>
   p \<in> set (order (evictList c'))"
proof (induction c s n arbitrary: rest rule: checkEvict_loop.induct)
  case (1 c s n)
  show ?case
  proof (cases "int (list_length (evictList c)) > lru_size c \<or> weightTotal c > weightLimit c")
    case False
    then have "checkEvict_loop c s n = Inr (n, c, s)"
      by (subst checkEvict_loop.simps) simp
    with "1.prems" show ?thesis by simp
  next
    case True
    with "1.prems"(6) obtain c1 s1 where r: "removeElement c (list_back (evictList c)) s = Inr (c1, s1)"
      and rest: "checkEvict_loop c1 s1 (n + 1) = Inr (n', c', s')"
      by (simp add: checkEvict_loop.simps[of c s n] split: sum.splits prod.splits)
    have d: "distinct (order (evictList c))" using "1.prems"(1) by (simp add: wf_lru_def)
    have ne: "rest \<noteq> []"
    proof
      assume "rest = []"
      with "1.prems" have "weightTotal c = stored_weight c p"
        by (simp add: residual_def stored_weight_sum_def)
      with True "1.prems" \<open>rest = []\<close> show False by (simp add: list_length_def)
    qed
    from r obtain q where q: "list_back (evictList c) = Some q"
      by (auto simp: removeElement_def split: option.splits)
    have w1: "wf_lru c1" using removeElement_wf[OF "1.prems"(1) r[unfolded q] list_back_in[OF q]] .
    have r1: "residual c1 = 0" using removeElement_back_residual[OF r d] "1.prems"(2) by simp
    from removeElement_Inr_back[OF r d] "1.prems"(4) ne
    have o1: "order (evictList c1) = p # butlast rest" and sc: "same_config c c1" by auto
    have sw: "stored_weight c1 p \<le> weightLimit c1"
      using "1.prems"(5) sc by (simp add: same_config_weights[OF sc] same_config_def)
    have sz: "1 \<le> lru_size c1" using "1.prems"(3) sc by (simp add: same_config_def)
    show ?thesis
      using "1.IH"[OF True r refl w1 r1 sz o1 sw rest] .
  qed
qed

subsection \<open>The example cache\<close>

lemma demo_reached:
  "(case NewLRUWithWeightLimit 2 10 (Some (\<lambda>v. v)) cb of
      Inl _ \<Rightarrow> False
    | Inr c0 \<Rightarrow> Add_all c0 [(''a'', 3), (''b'', 4)] s = Inr (demo cb, s))"
  by (simp add: engine_defs checkEvict_loop.simps demo_def fun_upd_twist)

lemma wf_demo: "wf_lru (demo cb)"
  by (auto simp: wf_lru_def demo_def split: if_splits)

lemma acct_demo: "acct (demo cb)"
  by (simp add: acct_def weights_ok_def demo_def stored_weight_def present_weight_def
      present_weight_sum_def weightFn_def)


subsection \<open>Negative sizes, Purge, construction\<close>

lemma removeElement_Inl:
  "removeElement c e s = Inl x \<Longrightarrow> x = (NilPointerDereference, c, s)"
  by (auto simp: removeElement_def split: option.splits)

lemma negative_size_panics:
  "lru_size c < 0 \<Longrightarrow>
     \<exists>c' s'. checkEvict_loop c s n = Inl (NilPointerDereference, c', s') \<and> lru_size c' = lru_size c"
proof (induction c s n rule: checkEvict_loop.induct)
  case (1 c s n)
  then have cond: "int (list_length (evictList c)) > lru_size c \<or> weightTotal c > weightLimit c"
    by simp
  show ?case
  proof (cases "removeElement c (list_back (evictList c)) s")
    case (Inl x)
    then have "x = (NilPointerDereference, c, s)" by (rule removeElement_Inl)
    with Inl cond show ?thesis
      by (subst checkEvict_loop.simps) simp
  next
    case (Inr r)
    obtain c1 s1 where r: "r = (c1, s1)" by (cases r)
    have sz: "lru_size c1 = lru_size c"
      using Inr unfolding r by (auto simp: removeElement_def split: option.splits)
    with "1.IH"[OF cond Inr[unfolded r] refl] "1.prems"
    obtain c' s' where "checkEvict_loop c1 s1 (n + 1) = Inl (NilPointerDereference, c', s')"
      "lru_size c' = lru_size c1" by auto
    with Inr r cond sz show ?thesis
      by (subst checkEvict_loop.simps) simp
  qed
qed

text \<open>
  When the check panics on a cache whose list and index agree, it has removed every
  entry first, from the back, and fired the callback for each: the panic is the nil
  handle that \<open>back\<close> returns on the empty list.
\<close>

lemma checkEvict_loop_panic_state:
  "wf_lru c \<Longrightarrow> checkEvict_loop c s n = Inl (e, c', s') \<Longrightarrow>
     e = NilPointerDereference \<and> order (evictList c') = [] \<and> same_config c c' \<and>
     s' = fire_all c (rev (order (evictList c))) s \<and> wf_lru c' \<and> residual c' = residual c"
proof (induction c s n rule: checkEvict_loop.induct)
  case (1 c s n)
  let ?xs = "order (evictList c)"
  have d: "distinct ?xs" using "1.prems"(1) by (simp add: wf_lru_def)
  show ?case
  proof (cases "int (list_length (evictList c)) > lru_size c \<or> weightTotal c > weightLimit c")
    case False
    then have "checkEvict_loop c s n = Inr (n, c, s)"
      by (subst checkEvict_loop.simps) simp
    with "1.prems" show ?thesis by simp
  next
    case True
    show ?thesis
    proof (cases "removeElement c (list_back (evictList c)) s")
      case (Inl x)
      then have x: "x = (NilPointerDereference, c, s)" by (rule removeElement_Inl)
      with Inl True "1.prems"(2) have eq: "e = NilPointerDereference" "c' = c" "s' = s"
        by (simp_all add: checkEvict_loop.simps[of c s n])
      have "?xs = []"
      proof (rule ccontr)
        assume ne: "?xs \<noteq> []"
        then have "last ?xs \<in> set ?xs" by simp
        then obtain en where "cells (evictList c) (last ?xs) = Some en"
          using "1.prems"(1) by (auto simp: wf_lru_def)
        from removeElement_back[OF ne this d, of s] Inl show False by simp
      qed
      with eq "1.prems"(1) show ?thesis by (simp add: fire_all_def)
    next
      case (Inr r)
      obtain c1 s1 where r: "removeElement c (list_back (evictList c)) s = Inr (c1, s1)"
        using Inr by (cases r) simp
      with True "1.prems"(2) have rest: "checkEvict_loop c1 s1 (n + 1) = Inl (e, c', s')"
        by (simp add: checkEvict_loop.simps[of c s n])
      from r obtain p where p: "list_back (evictList c) = Some p"
        by (auto simp: removeElement_def split: option.splits)
      have w1: "wf_lru c1"
        using removeElement_wf[OF "1.prems"(1) r[unfolded p] list_back_in[OF p]] .
      from removeElement_Inr_back[OF r d]
      have ne: "?xs \<noteq> []" and o1: "order (evictList c1) = butlast ?xs" and sc: "same_config c c1"
        and s1: "s1 = fire_ptr c (last ?xs) s" by auto
      note IH = "1.IH"[OF True r refl w1 rest]
      from IH have e: "e = NilPointerDereference" and o': "order (evictList c') = []"
        and sc': "same_config c1 c'" and wf': "wf_lru c'"
        and s': "s' = fire_all c1 (rev (butlast ?xs)) s1"
        and res: "residual c' = residual c1"
        unfolding o1 by blast+
      have rv: "rev ?xs = last ?xs # rev (butlast ?xs)"
        using ne by (metis append_butlast_last_id rev.simps(2) rev_rev_ident rev_singleton_conv rev_append append_Cons append_Nil)
      have "s' = fire_all c (rev ?xs) s"
        unfolding rv s' s1 fire_all_same[OF sc] by (simp add: fire_all_def)
      with e o' same_config_trans[OF sc sc'] wf' res removeElement_back_residual[OF r d]
      show ?thesis by simp
    qed
  qed
qed

lemma Purge_loop_fields:
  "Purge_loop c ks s = Inr (c', s') \<Longrightarrow>
     weightTotal c' = weightTotal c \<and> evictList c' = evictList c \<and> lru_size c' = lru_size c \<and>
     weightLimit c' = weightLimit c \<and> weightCalculator c' = weightCalculator c \<and>
     onEvict c' = onEvict c"
proof (induction c ks s rule: Purge_loop.induct)
  case (1 c s)
  then show ?case by simp
next
  case (2 c k ks s)
  show ?case
  proof (cases "items c k")
    case None
    with 2 show ?thesis by simp
  next
    case (Some p)
    show ?thesis
    proof (cases "onEvict c")
      case None
      with "2.IH"(2)[OF Some None] "2.prems" Some show ?thesis by simp
    next
      case f: (Some f)
      with "2.prems" Some obtain v where v: "cells (evictList c) p = Some v"
        by (auto split: option.splits)
      with "2.IH"(3)[OF Some f v] "2.prems" Some f show ?thesis by simp
    qed
  qed
qed

lemma Purge_keeps_weightTotal:
  "LRU_Purge c ks s = Inr (c', s') \<Longrightarrow> LRU_WeightTotal c' = LRU_WeightTotal c \<and> LRU_Len c' = 0"
  by (auto simp: LRU_Purge_def LRU_WeightTotal_def LRU_Len_def list_length_def list_init_def
      split: sum.splits dest: Purge_loop_fields)

lemma construction_fails_iff:
  "(\<exists>err. NewLRUWithWeightLimit sz wl wc cb = Inl err) \<longleftrightarrow> sz \<le> 0"
  by (simp add: NewLRUWithWeightLimit_def)

subsection \<open>The example wrapper; keys after a move to the front\<close>

lemma demo_cache_reached:
  "(case NewWithWeightLimitAndEvict 2 10 (Some (\<lambda>v. v)) (Some record_call) of
      Inl _ \<Rightarrow> False
    | Inr d0 \<Rightarrow>
        (case Cache_Add d0 ''a'' 3 [] of
           Inl _ \<Rightarrow> False
         | Inr (e1, d1, w1) \<Rightarrow> Cache_Add d1 ''b'' 4 w1 = Inr (False, demo_cache, [])))"
  by (simp add: engine_defs wrapper_defs checkEvict_loop.simps demo_def demo_cache_def fun_upd_twist)





subsection \<open>The engine of the wrapper against the engine with the user's callback\<close>

text \<open>
  Both engines take the same branches, since no branch depends on the callback; where one
  appends a pair to the buffers, the other runs the user's callback on that pair.
\<close>

lemma callEvictCB_loop_snoc:
  "length ks = length vs \<Longrightarrow>
   callEvictCB_loop (Some cb) (ks @ [k]) (vs @ [v]) w0 =
     (case callEvictCB_loop (Some cb) ks vs w0 of Inl e \<Rightarrow> Inl e | Inr w \<Rightarrow> Inr (cb k v w))"
  by (induction ks vs arbitrary: w0 rule: list_induct2) simp_all

lemma sim_removeElement:
  assumes "sim cb w0 (a, b) (l, w)"
  shows "rel_sum (inner_panic_rel cb w0) (\<lambda>ab lw. sim cb w0 ab lw)
     (removeElement a e b) (removeElement l e w)"
  using assms
  by (auto simp: removeElement_def sim_def same_engine_def fire_def Cache_onEvicted_def
        callEvictCB_loop_snoc split: option.splits)

lemma sim_checkEvict_loop:
  "sim cb w0 (a, b) (l, w) \<Longrightarrow>
   rel_sum (inner_panic_rel cb w0) (\<lambda>(n', ab) (m', lw). n' = m' \<and> sim cb w0 ab lw)
     (checkEvict_loop a b n) (checkEvict_loop l w n)"
proof (induction a b n arbitrary: l w rule: checkEvict_loop.induct)
  case (1 a b n)
  have se: "same_engine a l" using "1.prems" by (simp add: sim_def)
  let ?cond = "int (list_length (evictList a)) > lru_size a \<or> weightTotal a > weightLimit a"
  have cond: "?cond \<longleftrightarrow> int (list_length (evictList l)) > lru_size l \<or> weightTotal l > weightLimit l"
    using se by (simp add: same_engine_def)
  show ?case
  proof (cases ?cond)
    case False
    then show ?thesis
      using cond "1.prems"
      by (subst checkEvict_loop.simps, subst (2) checkEvict_loop.simps) simp
  next
    case True
    have bk: "list_back (evictList l) = list_back (evictList a)" using se by (simp add: same_engine_def)
    note r = sim_removeElement[OF "1.prems", of "list_back (evictList a)"]
    show ?thesis
    proof (cases "removeElement a (list_back (evictList a)) b")
      case (Inl x)
      with r obtain y where "removeElement l (list_back (evictList a)) w = Inl y"
        "inner_panic_rel cb w0 x y"
        by (cases "removeElement l (list_back (evictList a)) w") auto
      with Inl True cond bk show ?thesis
        by (subst checkEvict_loop.simps, subst (2) checkEvict_loop.simps) simp
    next
      case (Inr ab)
      obtain a1 b1 where ab: "ab = (a1, b1)" by (cases ab)
      from Inr r obtain l1 w1 where lw: "removeElement l (list_back (evictList a)) w = Inr (l1, w1)"
        and s1: "sim cb w0 (a1, b1) (l1, w1)"
        by (cases "removeElement l (list_back (evictList a)) w") (auto simp: ab)
      from "1.IH"[OF True Inr[unfolded ab] refl s1]
      show ?thesis
        using Inr ab lw True cond bk
        by (subst checkEvict_loop.simps, subst (2) checkEvict_loop.simps) simp
    qed
  qed
qed

lemma sim_fields:
  assumes "sim cb w0 (a, b) (l, w)"
  shows "lru_size l = lru_size a" "evictList l = evictList a" "items l = items a"
    "weightTotal l = weightTotal a" "weightLimit l = weightLimit a"
    "weightCalculator l = weightCalculator a"
  using assms by (simp_all add: sim_def same_engine_def)

lemma sim_update:
  assumes "sim cb w0 (a, b) (l, w)"
  shows "sim cb w0 (a\<lparr>lru_size := sz\<rparr>, b) (l\<lparr>lru_size := sz\<rparr>, w)"
    "sim cb w0 (a\<lparr>weightLimit := wl\<rparr>, b) (l\<lparr>weightLimit := wl\<rparr>, w)"
    "sim cb w0 (a\<lparr>evictList := el\<rparr>, b) (l\<lparr>evictList := el\<rparr>, w)"
    "sim cb w0 (a\<lparr>items := it\<rparr>, b) (l\<lparr>items := it\<rparr>, w)"
    "sim cb w0 (a\<lparr>evictList := el, weightTotal := wt\<rparr>, b) (l\<lparr>evictList := el, weightTotal := wt\<rparr>, w)"
    "sim cb w0 (a\<lparr>evictList := el, items := it\<rparr>, b) (l\<lparr>evictList := el, items := it\<rparr>, w)"
    "sim cb w0 (a\<lparr>evictList := el, items := it, evictList := el', weightTotal := wt\<rparr>, b)
       (l\<lparr>evictList := el, items := it, evictList := el', weightTotal := wt\<rparr>, w)"
  using assms by (simp_all add: sim_def same_engine_def)

lemma sim_checkEvict:
  "sim cb w0 (a, b) (l, w) \<Longrightarrow>
   rel_sum (inner_panic_rel cb w0) (\<lambda>(n', ab) (m', lw). n' = m' \<and> sim cb w0 ab lw)
     (checkEvict a b) (checkEvict l w)"
  unfolding checkEvict_def by (rule sim_checkEvict_loop)

lemma sim_Add_update:
  assumes "sim cb w0 (a, b) (l, w)"
  shows "rel_option (\<lambda>a1 l1. sim cb w0 (a1, b) (l1, w)) (Add_update a k v) (Add_update l k v)"
  using assms sim_fields[OF assms]
  by (auto simp: Add_update_def Let_def pushFront_def sim_update split: option.splits)

lemma sim_Add:
  assumes "sim cb w0 (a, b) (l, w)"
  shows "rel_sum (inner_panic_rel cb w0) (\<lambda>(r, ab) (r', lw). r = r' \<and> sim cb w0 ab lw)
     (LRU_Add a k v b) (LRU_Add l k v w)"
proof -
  note u = sim_Add_update[OF assms, of k v]
  show ?thesis
  proof (cases "Add_update a k v")
    case None
    with u have "Add_update l k v = None" by (cases "Add_update l k v") auto
    with None assms show ?thesis by (simp add: LRU_Add_eq)
  next
    case (Some a1)
    with u obtain l1 where l1: "Add_update l k v = Some l1" and s1: "sim cb w0 (a1, b) (l1, w)"
      by (cases "Add_update l k v") auto
    from sim_checkEvict[OF s1] show ?thesis
      unfolding LRU_Add_eq Some l1
      by (cases "checkEvict a1 b"; cases "checkEvict l1 w") auto
  qed
qed

lemma sim_Resize:
  assumes "sim cb w0 (a, b) (l, w)"
  shows "rel_sum (inner_panic_rel cb w0) (\<lambda>(r, ab) (r', lw). r = r' \<and> sim cb w0 ab lw)
     (LRU_Resize a sz b) (LRU_Resize l sz w)"
  unfolding LRU_Resize_def by (rule sim_checkEvict[OF sim_update(1)[OF assms]])

lemma sim_ResetWeightLimit:
  assumes "sim cb w0 (a, b) (l, w)"
  shows "rel_sum (inner_panic_rel cb w0) (\<lambda>(r, ab) (r', lw). r = r' \<and> sim cb w0 ab lw)
     (LRU_ResetWeightLimit a wl b) (LRU_ResetWeightLimit l wl w)"
  unfolding LRU_ResetWeightLimit_def by (rule sim_checkEvict[OF sim_update(2)[OF assms]])

lemma sim_Remove:
  assumes "sim cb w0 (a, b) (l, w)"
  shows "rel_sum (inner_panic_rel cb w0) (\<lambda>(r, ab) (r', lw). r = r' \<and> sim cb w0 ab lw)
     (LRU_Remove a k b) (LRU_Remove l k w)"
proof (cases "items a k")
  case None
  with assms sim_fields(3)[OF assms] show ?thesis by (simp add: LRU_Remove_def)
next
  case (Some p)
  from sim_removeElement[OF assms, of "Some p"] Some sim_fields(3)[OF assms] show ?thesis
    unfolding LRU_Remove_def
    by (cases "removeElement a (Some p) b"; cases "removeElement l (Some p) w") auto
qed

lemma removeElement_cells:
  "removeElement c e s = Inr (c', s') \<Longrightarrow> cells (evictList c') = cells (evictList c)"
  by (auto simp: removeElement_def list_remove_def split: option.splits)

lemma sim_RemoveOldest:
  assumes "sim cb w0 (a, b) (l, w)"
  shows "rel_sum (inner_panic_rel cb w0) (\<lambda>(r, ab) (r', lw). r = r' \<and> sim cb w0 ab lw)
     (LRU_RemoveOldest a b) (LRU_RemoveOldest l w)"
proof (cases "list_back (evictList a)")
  case None
  with assms sim_fields(2)[OF assms] show ?thesis by (simp add: LRU_RemoveOldest_def)
next
  case (Some p)
  note r = sim_removeElement[OF assms, of "Some p"]
  show ?thesis
  proof (cases "removeElement a (Some p) b")
    case (Inl x)
    with r obtain y where "removeElement l (Some p) w = Inl y" "inner_panic_rel cb w0 x y"
      by (cases "removeElement l (Some p) w") auto
    with Inl Some sim_fields(2)[OF assms] show ?thesis by (simp add: LRU_RemoveOldest_def)
  next
    case (Inr ab)
    obtain a1 b1 where ab: "ab = (a1, b1)" by (cases ab)
    from Inr r obtain l1 w1 where lw: "removeElement l (Some p) w = Inr (l1, w1)"
      and s1: "sim cb w0 (a1, b1) (l1, w1)"
      by (cases "removeElement l (Some p) w") (auto simp: ab)
    have "cells (evictList l1) = cells (evictList a1)"
      using sim_fields(2)[OF s1] by simp
    with Inr ab lw s1 Some sim_fields(2)[OF assms] show ?thesis
      by (simp add: LRU_RemoveOldest_def split: option.splits)
  qed
qed

lemma sim_Purge_loop:
  "sim cb w0 (a, b) (l, w) \<Longrightarrow>
   rel_sum (inner_panic_rel cb w0) (\<lambda>ab lw. sim cb w0 ab lw) (Purge_loop a ks b) (Purge_loop l ks w)"
proof (induction a ks b arbitrary: l w rule: Purge_loop.induct)
  case (1 c s)
  then show ?case by simp
next
  case (2 c k ks s)
  note f = sim_fields[OF "2.prems"]
  have oa: "onEvict c = Some Cache_onEvicted" and ol: "onEvict l = Some cb"
    using "2.prems" by (simp_all add: sim_def)
  show ?case
  proof (cases "items c k")
    case None
    with "2.IH"(1)[OF None "2.prems"] f show ?thesis by simp
  next
    case (Some p)
    show ?thesis
    proof (cases "cells (evictList c) p")
      case None
      with Some f oa ol "2.prems" show ?thesis by simp
    next
      case (Some v)
      have "sim cb w0 (c\<lparr>items := (items c)(k := None)\<rparr>, Cache_onEvicted k (val v) s)
              (l\<lparr>items := (items c)(k := None)\<rparr>, cb k (val v) w)"
        using "2.prems"
        by (simp add: sim_def same_engine_def Cache_onEvicted_def callEvictCB_loop_snoc)
      from "2.IH"(3)[OF \<open>items c k = Some p\<close> oa Some this] \<open>items c k = Some p\<close> Some f oa ol
      show ?thesis by simp
    qed
  qed
qed

lemma sim_Purge:
  assumes "sim cb w0 (a, b) (l, w)"
  shows "rel_sum (inner_panic_rel cb w0) (\<lambda>ab lw. sim cb w0 ab lw)
     (LRU_Purge a ks b) (LRU_Purge l ks w)"
proof -
  note r = sim_Purge_loop[OF assms, of ks]
  show ?thesis
  proof (cases "Purge_loop a ks b")
    case (Inl x)
    with r obtain y where "Purge_loop l ks w = Inl y" "inner_panic_rel cb w0 x y"
      by (cases "Purge_loop l ks w") auto
    with Inl show ?thesis by (simp add: LRU_Purge_def)
  next
    case (Inr ab)
    obtain a1 b1 where ab: "ab = (a1, b1)" by (cases ab)
    from Inr r obtain l1 w1 where lw: "Purge_loop l ks w = Inr (l1, w1)"
      and s1: "sim cb w0 (a1, b1) (l1, w1)"
      by (cases "Purge_loop l ks w") (auto simp: ab)
    from sim_update(3)[OF s1, of "list_init (evictList a1)"] sim_fields(2)[OF s1] Inr ab lw
    show ?thesis by (simp add: LRU_Purge_def)
  qed
qed

lemma sim_Get:
  assumes "sim cb w0 (a, b) (l, w)"
  shows "rel_sum (=) (\<lambda>(r, a') (r', l'). r = r' \<and> sim cb w0 (a', b) (l', w)) (LRU_Get a k) (LRU_Get l k)"
  using assms sim_fields[OF assms]
  by (auto simp: LRU_Get_def sim_update split: option.splits)

lemma sim_pure:
  assumes "same_engine a l"
  shows "LRU_Contains a k = LRU_Contains l k" "LRU_Peek a k = LRU_Peek l k"
    "LRU_GetOldest a = LRU_GetOldest l" "LRU_Keys a = LRU_Keys l" "LRU_Len a = LRU_Len l"
    "LRU_WeightTotal a = LRU_WeightTotal l"
  using assms
  by (simp_all add: same_engine_def LRU_Contains_def LRU_Peek_def LRU_GetOldest_def LRU_Keys_def
      LRU_Len_def LRU_WeightTotal_def split: option.splits)

subsection \<open>No eviction, no callback\<close>

lemma checkEvict_loop_quiet:
  "checkEvict_loop c s n = Inr (n', c', s') \<Longrightarrow> n \<le> n' \<and> (n' = n \<longrightarrow> s' = s)"
proof (induction c s n rule: checkEvict_loop.induct)
  case (1 c s n)
  show ?case
  proof (cases "int (list_length (evictList c)) > lru_size c \<or> weightTotal c > weightLimit c")
    case False
    then have "checkEvict_loop c s n = Inr (n, c, s)"
      by (subst checkEvict_loop.simps) simp
    with "1.prems" show ?thesis by simp
  next
    case True
    with "1.prems" obtain c1 s1 where r: "removeElement c (list_back (evictList c)) s = Inr (c1, s1)"
      and rest: "checkEvict_loop c1 s1 (n + 1) = Inr (n', c', s')"
      by (simp add: checkEvict_loop.simps[of c s n] split: sum.splits prod.splits)
    from "1.IH"[OF True r refl rest] show ?thesis by simp
  qed
qed

lemma LRU_Add_quiet: "LRU_Add c k v s = Inr (evicted, c', s') \<Longrightarrow> evicted \<or> s' = s"
  by (auto simp: LRU_Add_eq checkEvict_def split: option.splits sum.splits
      dest: checkEvict_loop_quiet)

lemma LRU_Resize_quiet: "LRU_Resize c sz s = Inr (n, c', s') \<Longrightarrow> n > 0 \<or> s' = s"
  by (auto simp: LRU_Resize_def checkEvict_def dest: checkEvict_loop_quiet)

lemma LRU_ResetWeightLimit_quiet: "LRU_ResetWeightLimit c wl s = Inr (n, c', s') \<Longrightarrow> n > 0 \<or> s' = s"
  by (auto simp: LRU_ResetWeightLimit_def checkEvict_def dest: checkEvict_loop_quiet)

lemma LRU_Remove_quiet: "LRU_Remove c k s = Inr (present, c', s') \<Longrightarrow> present \<or> s' = s"
  by (auto simp: LRU_Remove_def split: option.splits sum.splits)

lemma LRU_RemoveOldest_quiet: "LRU_RemoveOldest c s = Inr (oldest, c', s') \<Longrightarrow> oldest \<noteq> None \<or> s' = s"
  by (auto simp: LRU_RemoveOldest_def split: option.splits sum.splits)

subsection \<open>Draining the buffers\<close>

lemma collectEvicted_nonempty:
  assumes "length (evictedKeys c) = length (evictedVals c)" "evictedKeys c \<noteq> []"
  shows "collectEvicted c purge =
           (evictedKeys c, evictedVals c, c\<lparr>evictedKeys := [], evictedVals := []\<rparr>)"
proof -
  from assms have "evictedVals c \<noteq> []" by auto
  with assms show ?thesis
    by (cases purge) (simp_all add: collectEvicted_def Let_def initEvictBuffers_def)
qed

lemma flush_delivers:
  assumes "onEvictedCB c = Some cb" "length (evictedKeys c) = length (evictedVals c)"
    "callEvictCB_loop (Some cb) (evictedKeys c) (evictedVals c) w = Inr w'"
    "gate \<or> evictedKeys c = []"
  shows "flush c gate purge w = Inr (c\<lparr>evictedKeys := [], evictedVals := []\<rparr>, w')"
proof (cases "evictedKeys c = []")
  case True
  with assms(2) have v: "evictedVals c = []" by simp
  with True assms(3) have w: "w' = w" by simp
  have c: "c\<lparr>evictedKeys := [], evictedVals := []\<rparr> = c" using True v by simp
  show ?thesis
    unfolding c using True v w assms(1)
    by (simp add: flush_def collectEvicted_def callEvictCB_def)
next
  case False
  with assms(4) have gate by simp
  with assms(1,3) show ?thesis
    by (simp add: flush_def collectEvicted_nonempty[OF assms(2) False] callEvictCB_def)
qed

lemma wraps_sim:
  "wraps cb c l \<Longrightarrow> sim cb w (lru c, (evictedKeys c, evictedVals c)) (l, w)"
  by (simp add: wraps_def sim_def)

lemma wraps_update_lru:
  "wraps cb c l \<Longrightarrow> sim cb w (a', ([], [])) (l', w) \<Longrightarrow> wraps cb (c\<lparr>lru := a'\<rparr>) l'"
  by (simp add: wraps_def sim_def)

lemma wrapper_step:
  assumes w: "wraps cb c l"
    and s: "rel_sum (inner_panic_rel cb w) (\<lambda>(r, ab) (r', lw). r = r' \<and> sim cb w ab lw) Ea El"
    and q: "\<And>r a' b'. Ea = Inr (r, a', b') \<Longrightarrow> gate r \<or> b' = (evictedKeys c, evictedVals c)"
  shows "rel_sum (panic_rel cb) (step_rel cb)
      (case Ea of
         Inl (x, a', b') \<Rightarrow> Inl (x, after_engine c a' b', w)
       | Inr (r, a', b') \<Rightarrow>
           (case flush (after_engine c a' b') (gate r) purge w of
              Inl x \<Rightarrow> Inl x
            | Inr (c', w') \<Rightarrow> Inr (r, c', w')))
      El"
proof (cases Ea)
  case (Inl x)
  obtain e a' b' where x: "x = (e, a', b')" by (cases x)
  from Inl s obtain l' w'' where El: "El = Inl (e, l', w'')" and sm: "sim cb w (a', b') (l', w'')"
    by (cases El) (auto simp: x)
  have "stranded cb (after_engine c a' b') w l' w''"
    using w sm by (simp add: stranded_def after_engine_def wraps_def)
  with Inl x El show ?thesis by simp
next
  case (Inr rab)
  obtain r a' b' where rab: "rab = (r, a', b')" by (cases rab)
  from Inr s obtain l' w'' where El: "El = Inr (r, l', w'')" and sm: "sim cb w (a', b') (l', w'')"
    by (cases El) (auto simp: rab)
  let ?c1 = "after_engine c a' b'"
  have g: "gate r \<or> evictedKeys ?c1 = []"
    using q[OF Inr[unfolded rab]] w by (auto simp: after_engine_def wraps_def)
  have f: "flush ?c1 (gate r) purge w = Inr (?c1\<lparr>evictedKeys := [], evictedVals := []\<rparr>, w'')"
    using w sm g by (intro flush_delivers[where cb = cb]) (simp_all add: after_engine_def wraps_def sim_def)
  have "wraps cb (?c1\<lparr>evictedKeys := [], evictedVals := []\<rparr>) l'"
    using w sm by (simp add: after_engine_def wraps_def sim_def)
  with f Inr rab El show ?thesis by simp
qed

lemma step_Add:
  assumes "wraps cb c l"
  shows "rel_sum (panic_rel cb) (step_rel cb) (Cache_Add c k v w) (LRU_Add l k v w)"
  unfolding Cache_Add_def
  by (rule wrapper_step[OF assms sim_Add[OF wraps_sim[OF assms]], where gate = "\<lambda>r. r"])
     (auto dest: LRU_Add_quiet)

lemma step_Remove:
  assumes "wraps cb c l"
  shows "rel_sum (panic_rel cb) (step_rel cb) (Cache_Remove c k w) (LRU_Remove l k w)"
  unfolding Cache_Remove_def
  by (rule wrapper_step[OF assms sim_Remove[OF wraps_sim[OF assms]], where gate = "\<lambda>r. r"])
     (auto dest: LRU_Remove_quiet)

lemma step_Resize:
  assumes "wraps cb c l"
  shows "rel_sum (panic_rel cb) (step_rel cb) (Cache_Resize c sz w) (LRU_Resize l sz w)"
  unfolding Cache_Resize_def
  by (rule wrapper_step[OF assms sim_Resize[OF wraps_sim[OF assms]], where gate = "\<lambda>r. r > 0"])
     (auto dest: LRU_Resize_quiet)

lemma step_ResetWeightLimit:
  assumes "wraps cb c l"
  shows "rel_sum (panic_rel cb) (step_rel cb) (Cache_ResetWeightLimit c wl w) (LRU_ResetWeightLimit l wl w)"
  unfolding Cache_ResetWeightLimit_def
  by (rule wrapper_step[OF assms sim_ResetWeightLimit[OF wraps_sim[OF assms]], where gate = "\<lambda>r. r > 0"])
     (auto dest: LRU_ResetWeightLimit_quiet)

lemma step_RemoveOldest:
  assumes "wraps cb c l"
  shows "rel_sum (panic_rel cb) (step_rel cb) (Cache_RemoveOldest c w) (LRU_RemoveOldest l w)"
  unfolding Cache_RemoveOldest_def
  by (rule wrapper_step[OF assms sim_RemoveOldest[OF wraps_sim[OF assms]], where gate = "\<lambda>r. r \<noteq> None"])
     (auto dest: LRU_RemoveOldest_quiet)

lemma step_Purge:
  assumes "wraps cb c l"
  shows "rel_sum (panic_rel cb) (\<lambda>(c', w') (l', w''). w' = w'' \<and> wraps cb c' l')
     (Cache_Purge c ks w) (LRU_Purge l ks w)"
proof -
  note s = sim_Purge[OF wraps_sim[OF assms, of w], of ks]
  show ?thesis
  proof (cases "LRU_Purge (lru c) ks (evictedKeys c, evictedVals c)")
    case (Inl x)
    obtain e a' b' where x: "x = (e, a', b')" by (cases x)
    from Inl s obtain l' w'' where El: "LRU_Purge l ks w = Inl (e, l', w'')"
      and sm: "sim cb w (a', b') (l', w'')"
      by (cases "LRU_Purge l ks w") (auto simp: x)
    have "stranded cb (after_engine c a' b') w l' w''"
      using assms sm by (simp add: stranded_def after_engine_def wraps_def)
    with Inl x El show ?thesis by (simp add: Cache_Purge_def)
  next
    case (Inr ab)
    obtain a' b' where ab: "ab = (a', b')" by (cases ab)
    from Inr s obtain l' w'' where El: "LRU_Purge l ks w = Inr (l', w'')"
      and sm: "sim cb w (a', b') (l', w'')"
      by (cases "LRU_Purge l ks w") (auto simp: ab)
    let ?c1 = "after_engine c a' b'"
    have f: "flush ?c1 (length (evictedKeys ?c1) > 0) True w
         = Inr (?c1\<lparr>evictedKeys := [], evictedVals := []\<rparr>, w'')"
      using assms sm by (intro flush_delivers[where cb = cb]) (auto simp: after_engine_def wraps_def sim_def)
    have "wraps cb (?c1\<lparr>evictedKeys := [], evictedVals := []\<rparr>) l'"
      using assms sm by (simp add: after_engine_def wraps_def sim_def)
    with f Inr ab El show ?thesis by (simp add: Cache_Purge_def Let_def)
  qed
qed

lemma step_add_on_miss:
  assumes "wraps cb c l"
  shows "rel_sum (panic_rel cb) (step_rel cb)
      (case LRU_Add (lru c) k v (evictedKeys c, evictedVals c) of
         Inl (x, a, b) \<Rightarrow> Inl (x, after_engine c a b, w)
       | Inr (evicted, a, b) \<Rightarrow>
           (case flush (after_engine c a b) evicted False w of
              Inl x \<Rightarrow> Inl x
            | Inr (c', w') \<Rightarrow> Inr (f evicted, c', w')))
      (LRU_add_on_miss l k v w f)"
proof -
  from step_Add[OF assms, of k v w]
  show ?thesis
    unfolding Cache_Add_def LRU_add_on_miss_def ret_def
    by (cases "LRU_Add (lru c) k v (evictedKeys c, evictedVals c)"; cases "LRU_Add l k v w")
       (auto split: sum.splits)
qed

subsection \<open>Calls and sequences of calls\<close>

lemma rel_ret:
  assumes "rel_sum (panic_rel cb) (step_rel cb) A B"
  shows "rel_sum (panic_rel cb) (step_rel cb) (ret f A) (ret f B)"
  using assms by (cases A; cases B) (auto simp: ret_def)

lemma wraps_same: "wraps cb c l \<Longrightarrow> same_engine (lru c) l"
  by (simp add: wraps_def)

lemma wraps_stranded: "wraps cb c l \<Longrightarrow> stranded cb c w l w"
  by (simp add: wraps_def stranded_def sim_def)

lemma step_call:
  assumes w: "wraps cb c l"
  shows "rel_sum (panic_rel cb) (step_rel cb) (Cache_call c x w) (LRU_call l x w)"
proof (cases x)
  case (Call_Purge ks)
  from step_Purge[OF w, of ks w] show ?thesis
    unfolding Call_Purge Cache_call_def LRU_call_def
    by (cases "Cache_Purge c ks w"; cases "LRU_Purge l ks w") auto
next
  case (Call_Add k v)
  show ?thesis
    unfolding Call_Add Cache_call_def LRU_call_def call.case
    by (rule rel_ret[OF step_Add[OF w]])
next
  case (Call_Get k)
  from sim_Get[OF wraps_sim[OF w, of w], of k] w show ?thesis
    unfolding Call_Get Cache_call_def LRU_call_def Cache_Get_def
    by (cases "LRU_Get (lru c) k"; cases "LRU_Get l k") (auto simp: wraps_def sim_def stranded_def)
next
  case (Call_Contains k)
  with w sim_pure(1)[OF wraps_same[OF w]] show ?thesis
    by (simp add: Cache_call_def LRU_call_def Cache_Contains_def)
next
  case (Call_Peek k)
  with w sim_pure(2)[OF wraps_same[OF w], of k] wraps_stranded[OF w, of w] show ?thesis
    by (cases "LRU_Peek l k") (simp_all add: Cache_call_def LRU_call_def Cache_Peek_def ret_pure_def)
next
  case (Call_GetOrAdd k v)
  note g = sim_Get[OF wraps_sim[OF w, of w], of k]
  show ?thesis
  proof (cases "LRU_Get (lru c) k")
    case (Inl e)
    with g have "LRU_Get l k = Inl e" by (cases "LRU_Get l k") auto
    with Inl wraps_stranded[OF w, of w] show ?thesis
      by (simp add: Call_GetOrAdd Cache_call_def LRU_call_def Cache_GetOrAdd_def ret_def)
  next
    case (Inr pa)
    obtain previous a' where pa: "pa = (previous, a')" by (cases pa)
    from Inr g obtain l' where l': "LRU_Get l k = Inr (previous, l')"
      and s: "sim cb w (a', (evictedKeys c, evictedVals c)) (l', w)"
      by (cases "LRU_Get l k") (auto simp: pa)
    have w': "wraps cb (c\<lparr>lru := a'\<rparr>) l'"
      using w s by (simp add: wraps_def sim_def)
    show ?thesis
    proof (cases "previous = None")
      case False
      with Inr pa l' w' show ?thesis
        by (auto simp: Call_GetOrAdd Cache_call_def LRU_call_def Cache_GetOrAdd_def ret_def)
    next
      case True
      from step_add_on_miss[OF w', where k = k and v = v and w = w and f = "Ret_Value_Bool_Bool previous False"]
      show ?thesis
        unfolding Call_GetOrAdd Cache_call_def LRU_call_def Cache_GetOrAdd_def ret_def
        using Inr pa l' True
        by (cases "LRU_Add a' k v (evictedKeys c, evictedVals c)")
           (auto simp: Let_def split: sum.splits)
    qed
  qed
next
  case (Call_ContainsOrAdd k v)
  note p = sim_pure(1)[OF wraps_same[OF w], of k]
  show ?thesis
  proof (cases "LRU_Contains l k")
    case True
    with p w show ?thesis
      by (simp add: Call_ContainsOrAdd Cache_call_def LRU_call_def Cache_ContainsOrAdd_def ret_def)
  next
    case False
    from step_add_on_miss[OF w, where k = k and v = v and w = w and f = "Ret_Bool_Bool False"]
    show ?thesis
      unfolding Call_ContainsOrAdd Cache_call_def LRU_call_def Cache_ContainsOrAdd_def ret_def
      using False p
      by (cases "LRU_Add (lru c) k v (evictedKeys c, evictedVals c)")
         (auto split: sum.splits)
  qed
next
  case (Call_PeekOrAdd k v)
  note p = sim_pure(2)[OF wraps_same[OF w], of k]
  show ?thesis
  proof (cases "LRU_Peek l k")
    case (Inl e)
    with p wraps_stranded[OF w, of w] show ?thesis
      by (simp add: Call_PeekOrAdd Cache_call_def LRU_call_def Cache_PeekOrAdd_def ret_def)
  next
    case (Inr previous)
    show ?thesis
    proof (cases "previous = None")
      case False
      with Inr p w show ?thesis
        by (auto simp: Call_PeekOrAdd Cache_call_def LRU_call_def Cache_PeekOrAdd_def ret_def)
    next
      case True
      from step_add_on_miss[OF w, where k = k and v = v and w = w and f = "Ret_Value_Bool_Bool previous False"]
      show ?thesis
        unfolding Call_PeekOrAdd Cache_call_def LRU_call_def Cache_PeekOrAdd_def ret_def
        using Inr p True
        by (cases "LRU_Add (lru c) k v (evictedKeys c, evictedVals c)")
           (auto split: sum.splits)
    qed
  qed
next
  case (Call_Remove k)
  show ?thesis
    unfolding Call_Remove Cache_call_def LRU_call_def call.case
    by (rule rel_ret[OF step_Remove[OF w]])
next
  case (Call_Resize sz)
  show ?thesis
    unfolding Call_Resize Cache_call_def LRU_call_def call.case
    by (rule rel_ret[OF step_Resize[OF w]])
next
  case (Call_ResetWeightLimit wl)
  show ?thesis
    unfolding Call_ResetWeightLimit Cache_call_def LRU_call_def call.case
    by (rule rel_ret[OF step_ResetWeightLimit[OF w]])
next
  case Call_RemoveOldest
  show ?thesis
    unfolding Call_RemoveOldest Cache_call_def LRU_call_def call.case
    by (rule rel_ret[OF step_RemoveOldest[OF w]])
next
  case Call_GetOldest
  with w sim_pure(3)[OF wraps_same[OF w]] wraps_stranded[OF w, of w] show ?thesis
    by (cases "LRU_GetOldest l") (simp_all add: Cache_call_def LRU_call_def Cache_GetOldest_def ret_pure_def)
next
  case Call_Keys
  with w sim_pure(4)[OF wraps_same[OF w]] wraps_stranded[OF w, of w] show ?thesis
    by (cases "LRU_Keys l") (simp_all add: Cache_call_def LRU_call_def Cache_Keys_def ret_pure_def)
next
  case Call_Len
  with w sim_pure(5)[OF wraps_same[OF w]] show ?thesis
    by (simp add: Cache_call_def LRU_call_def Cache_Len_def)
next
  case Call_WeightTotal
  with w sim_pure(6)[OF wraps_same[OF w]] show ?thesis
    by (simp add: Cache_call_def LRU_call_def Cache_WeightTotal_def)
qed

text \<open>
  The wrapper against the direct engine, over a sequence of calls.  Both return or both
  panic, at the same call and with the same results before it.  When they return, the
  user's callback is in the same state on both sides and the buffers are empty.  When
  they panic, the pairs evicted during the panicking call are still in the buffers of the
  wrapper, while the direct engine has run the callback on them.
\<close>

lemma run_calls:
  "wraps cb c l \<Longrightarrow>
   rel_sum (\<lambda>(e, rs, c', w') (e', rs', l', w''). e = e' \<and> rs = rs' \<and> stranded cb c' w' l' w'')
     (\<lambda>(rs, c', w') (rs', l', w''). rs = rs' \<and> w' = w'' \<and> wraps cb c' l')
     (run Cache_call c xs w) (run LRU_call l xs w)"
proof (induction xs arbitrary: c l w)
  case Nil
  then show ?case by simp
next
  case (Cons x xs)
  note s = step_call[OF Cons.prems, of x w]
  show ?case
  proof (cases "Cache_call c x w")
    case (Inl t)
    obtain e c' w' where t: "t = (e, c', w')" by (cases t)
    from Inl s obtain l' w'' where "LRU_call l x w = Inl (e, l', w'')" "stranded cb c' w' l' w''"
      by (cases "LRU_call l x w") (auto simp: t)
    with Inl t show ?thesis by simp
  next
    case (Inr t)
    obtain r c' w' where t: "t = (r, c', w')" by (cases t)
    from Inr s obtain l' where l': "LRU_call l x w = Inr (r, l', w')" and w1: "wraps cb c' l'"
      by (cases "LRU_call l x w") (auto simp: t)
    from Cons.IH[OF w1, of w'] Inr t l' show ?thesis
      by (cases "run Cache_call c' xs w'"; cases "run LRU_call l' xs w'") auto
  qed
qed

lemma new_wraps:
  assumes "0 < sz"
  shows "\<exists>c l. NewWithWeightLimitAndEvict sz wl wc (Some cb) = Inr c \<and>
     NewLRUWithWeightLimit sz wl wc (Some cb) = Inr l \<and> wraps cb c l"
  using assms
  by (simp add: NewWithWeightLimitAndEvict_def NewLRUWithWeightLimit_def wraps_def same_engine_def)

subsection \<open>Resize to 0\<close>

lemma LRU_Resize_zero:
  assumes "wf_lru c" and "residual c \<le> weightLimit c"
  shows "(case LRU_Resize c 0 s of
            Inl _ \<Rightarrow> False
          | Inr (n, c', s') \<Rightarrow>
              n = LRU_Len c \<and> LRU_Len c' = 0 \<and> LRU_Keys c' = Inr [] \<and>
              (\<forall>k. \<not> LRU_Contains c' k) \<and>
              s' = fire_all c (rev (order (evictList c))) s)"
proof -
  let ?c0 = "c\<lparr>lru_size := 0\<rparr>"
  have w0: "wf_lru ?c0" using assms(1) by (simp add: wf_size_update)
  have d: "distinct (order (evictList ?c0))" using assms(1) by (simp add: wf_lru_def)
  from checkEvict_loop_succeeds[OF w0, of s 0] assms(2)
  obtain n c' s' where r: "checkEvict_loop ?c0 s 0 = Inr (n, c', s')"
    by (auto simp: residual_size_update)
  note v = checkEvict_loop_victims[OF d r, simplified]
  from v have n: "n \<le> length (order (evictList c))"
    and o: "order (evictList c') = take (length (order (evictList c)) - n) (order (evictList c))"
    and s: "s' = fire_all ?c0 (rev (drop (length (order (evictList c)) - n) (order (evictList c)))) s"
    and sc: "lru_size c' = 0" and le: "int (length (order (evictList c'))) \<le> lru_size c'"
    by (auto simp: same_config_def)
  from le sc have e: "order (evictList c') = []" by simp
  with o n have nn: "n = length (order (evictList c))" by (cases "order (evictList c)") auto
  have w': "wf_lru c'" using checkEvict_loop_preserves[OF w0 r] by simp
  have nk: "\<not> LRU_Contains c' k" for k
    using w' e by (auto simp: wf_lru_def LRU_Contains_def split: option.splits)
  show ?thesis
    using r nn e nk s
    by (simp add: LRU_Resize_def checkEvict_def LRU_Len_def list_length_def LRU_Keys_def
         fire_all_size_update)
qed

text \<open>
  The same for the wrapper, with a user callback (by the correspondence with the direct
  engine) and without one.
\<close>

lemma Cache_Resize_zero:
  assumes "wf_lru l" and "residual l \<le> weightLimit l" and w: "wraps cb c l"
  shows "(case Cache_Resize c 0 w of
             Inl _ \<Rightarrow> False
           | Inr (n, c', w') \<Rightarrow>
               n = Cache_Len c \<and> Cache_Len c' = 0 \<and> Cache_Keys c' = Inr [] \<and>
               (\<forall>k. \<not> Cache_Contains c' k) \<and>
               evictedKeys c' = [] \<and> evictedVals c' = [] \<and>
               w' = fire_all l (rev (order (evictList l))) w)"
proof -
  from LRU_Resize_zero[OF assms(1,2), of w] obtain n l' w' where
    r: "LRU_Resize l 0 w = Inr (n, l', w')" and
    f: "n = LRU_Len l" "LRU_Len l' = 0" "LRU_Keys l' = Inr []" "\<And>k. \<not> LRU_Contains l' k"
       "w' = fire_all l (rev (order (evictList l))) w"
    by (cases "LRU_Resize l 0 w") auto
  from step_Resize[OF w, of 0 w] r obtain c' where
    c: "Cache_Resize c 0 w = Inr (n, c', w')" and w': "wraps cb c' l'"
    by (cases "Cache_Resize c 0 w") auto
  note p = sim_pure[OF wraps_same[OF w]] and p' = sim_pure[OF wraps_same[OF w']]
  show ?thesis
    unfolding c using f p(5) p'(1,4,5) w'
    by (simp add: Cache_Len_def Cache_Keys_def Cache_Contains_def wraps_def)
qed

lemma Cache_Resize_zero_no_callback:
  assumes "wf_lru (lru c)" and "residual (lru c) \<le> weightLimit (lru c)"
    and "onEvictedCB c = None"
  shows "(case Cache_Resize c 0 w of
             Inl _ \<Rightarrow> False
           | Inr (n, c', w') \<Rightarrow>
               n = Cache_Len c \<and> Cache_Len c' = 0 \<and> Cache_Keys c' = Inr [] \<and>
               (\<forall>k. \<not> Cache_Contains c' k) \<and> w' = w)"
proof -
  from LRU_Resize_zero[OF assms(1,2), of "(evictedKeys c, evictedVals c)"] obtain n l' b' where
    r: "LRU_Resize (lru c) 0 (evictedKeys c, evictedVals c) = Inr (n, l', b')" and
    f: "n = LRU_Len (lru c)" "LRU_Len l' = 0" "LRU_Keys l' = Inr []" "\<And>k. \<not> LRU_Contains l' k"
    by (cases "LRU_Resize (lru c) 0 (evictedKeys c, evictedVals c)") auto
  show ?thesis
    using r f assms(3)
    by (simp add: Cache_Resize_def flush_def after_engine_def Cache_Len_def Cache_Keys_def
        Cache_Contains_def)
qed

subsection \<open>The two forms of drain; the wrapper from its constructor\<close>

lemma drain_forms_agree:
  assumes l: "length (evictedKeys c) = length (evictedVals c)"
  shows "collectEvicted c True = collectEvicted c False"
    and "flush c gate True w = flush c gate False w"
proof -
  show 1: "collectEvicted c True = collectEvicted c False"
  proof (cases "evictedKeys c = []")
    case True
    then show ?thesis by (simp add: collectEvicted_def)
  next
    case False
    then show ?thesis by (simp add: collectEvicted_nonempty[OF l False])
  qed
  then show "flush c gate True w = flush c gate False w"
    by (simp add: flush_def)
qed

text \<open>
  From the constructors: when the calls all return, the wrapper has returned what the
  direct engine returns, the user's callback has been run on the evicted pairs exactly as
  the direct engine runs it (once for each eviction, in the order of the evictions), and
  the buffers are empty.
\<close>

lemma wrapper_delivers_when_calls_return:
  assumes "0 < sz"
    and n: "NewWithWeightLimitAndEvict sz wl wc (Some cb) = Inr c0"
           "NewLRUWithWeightLimit sz wl wc (Some cb) = Inr l0"
    and r: "run Cache_call c0 xs w = Inr (rs, c, w')"
  shows "\<exists>l. run LRU_call l0 xs w = Inr (rs, l, w') \<and> evictedKeys c = [] \<and> evictedVals c = []"
proof -
  from new_wraps[OF assms(1), of wl wc cb] n have w0: "wraps cb c0 l0" by auto
  from run_calls[OF w0, of xs w] r show ?thesis
    by (cases "run LRU_call l0 xs w") (auto simp: wraps_def)
qed

text \<open>
  And when a call panics, the direct engine panics at the same call; what the direct
  engine has handed to the callback during that call is what the wrapper still holds in
  its buffers.
\<close>

lemma wrapper_strands_when_call_panics:
  assumes "0 < sz"
    and n: "NewWithWeightLimitAndEvict sz wl wc (Some cb) = Inr c0"
           "NewLRUWithWeightLimit sz wl wc (Some cb) = Inr l0"
    and r: "run Cache_call c0 xs w = Inl (e, rs, c, w')"
  shows "\<exists>l w''. run LRU_call l0 xs w = Inl (e, rs, l, w'') \<and>
           callEvictCB_loop (Some cb) (evictedKeys c) (evictedVals c) w' = Inr w''"
proof -
  from new_wraps[OF assms(1), of wl wc cb] n have w0: "wraps cb c0 l0" by auto
  from run_calls[OF w0, of xs w] r show ?thesis
    by (cases "run LRU_call l0 xs w") (auto simp: stranded_def sim_def)
qed

subsection \<open>Every method but Purge keeps the weight accounting\<close>

lemma weightFn_update:
  "weightFn (c\<lparr>lru_size := sz\<rparr>) = weightFn c"
  "weightFn (c\<lparr>weightLimit := wl\<rparr>) = weightFn c"
  "weightFn (c\<lparr>evictList := el\<rparr>) = weightFn c"
  "weightFn (c\<lparr>items := it\<rparr>) = weightFn c"
  "weightFn (c\<lparr>weightTotal := wt\<rparr>) = weightFn c"
  by (simp_all add: fun_eq_iff weightFn_def)

lemma removeElement_acct:
  assumes "wf_lru c" "removeElement c (Some p) s = Inr (c', s')" "p \<in> set (order (evictList c))"
  shows "residual c' = residual c \<and> (weights_ok c \<longrightarrow> weights_ok c')"
proof -
  from assms(2) obtain e where e: "cells (evictList c) p = Some e"
    and c': "c' = c\<lparr>evictList := list_remove (evictList c) p,
                     items := (items c)(key e := None),
                     weightTotal := weightTotal c - weight e\<rparr>"
    by (auto simp: removeElement_def split: option.splits)
  have sw: "stored_weight c' = stored_weight c" and pw: "present_weight c' = present_weight c"
    by (auto simp: fun_eq_iff c' stored_weight_def present_weight_def weightFn_update list_remove_def
        cong: option.case_cong)
  have o: "order (evictList c') = remove1 p (order (evictList c))"
    by (simp add: c' list_remove_def)
  have "stored_weight_sum c = weight e + stored_weight_sum c'"
    using stored_sum_remove1[OF assms(3)] e
    by (simp add: stored_weight_sum_def[of c'] o sw stored_weight_def[of c p])
  then have "residual c' = residual c"
    by (simp add: residual_def c')
  moreover have "weights_ok c'" if "weights_ok c"
    using that unfolding weights_ok_def o sw pw by (auto dest: notin_set_remove1)
  ultimately show ?thesis by simp
qed

lemma LRU_Get_inv:
  assumes "wf_lru c" "LRU_Get c k = Inr (v, c')"
  shows "wf_lru c' \<and> residual c' = residual c \<and> (weights_ok c \<longrightarrow> weights_ok c')"
proof (cases "items c k")
  case None
  with assms show ?thesis by (simp add: LRU_Get_def)
next
  case (Some p)
  with assms(2) have c': "c' = c\<lparr>evictList := moveToFront (evictList c) p\<rparr>"
    by (auto simp: LRU_Get_def split: option.splits)
  from assms(1) Some have pin: "p \<in> set (order (evictList c))"
    unfolding wf_lru_def by blast
  have d: "distinct (order (evictList c))" using assms(1) by (simp add: wf_lru_def)
  have o: "order (evictList c') = p # remove1 p (order (evictList c))"
    by (simp add: c' moveToFront_def)
  have s: "set (order (evictList c')) = set (order (evictList c))"
    using pin d by (auto simp: o)
  have sw: "stored_weight c' = stored_weight c" and pw: "present_weight c' = present_weight c"
    by (auto simp: fun_eq_iff c' stored_weight_def present_weight_def weightFn_update moveToFront_def
        cong: option.case_cong)
  have wf': "wf_lru c'"
    using assms(1) pin unfolding wf_lru_def c' moveToFront_def by auto
  have "stored_weight_sum c' = stored_weight_sum c"
    using stored_sum_remove1[OF pin] by (simp add: stored_weight_sum_def[of c'] o sw)
  then have "residual c' = residual c" by (simp add: residual_def c')
  moreover have "weights_ok c'" if "weights_ok c"
    using that unfolding weights_ok_def s sw pw .
  ultimately show ?thesis using wf' by simp
qed

lemma checkEvict_acct:
  assumes "wf_lru c" "acct c" "checkEvict c s = Inr (n, c', s')"
  shows "wf_lru c' \<and> acct c'"
proof -
  have d: "distinct (order (evictList c))" using assms(1) by (simp add: wf_lru_def)
  note r = assms(3)[unfolded checkEvict_def]
  from checkEvict_loop_preserves[OF assms(1) r] checkEvict_loop_weights_ok[OF d r] assms(2)
  show ?thesis by (simp add: acct_iff)
qed

lemma LRU_Add_acct:
  assumes "wf_lru c" "acct c" "LRU_Add c k v s = Inr (evicted, c', s')"
  shows "wf_lru c' \<and> acct c'"
proof -
  have "\<exists>c1. Add_update c k v = Some c1 \<and> wf_lru c1 \<and> acct c1"
  proof (cases "items c k")
    case None
    from Add_update_absent_inv[OF assms(1) None, of v] assms(2) show ?thesis
      by (auto simp: acct_iff)
  next
    case (Some p)
    from Add_update_present_inv[OF assms(1) Some, of v] assms(2) show ?thesis
      by (auto simp: acct_iff)
  qed
  then obtain c1 where c1: "Add_update c k v = Some c1" "wf_lru c1" "acct c1" by blast
  with assms(3) obtain n where "checkEvict c1 s = Inr (n, c', s')"
    by (auto simp: LRU_Add_eq split: sum.splits)
  from checkEvict_acct[OF c1(2,3) this] show ?thesis .
qed

lemma config_update_inv:
  "wf_lru (c\<lparr>weightLimit := wl\<rparr>) = wf_lru c"
  "acct (c\<lparr>weightLimit := wl\<rparr>) = acct c"
  "acct (c\<lparr>lru_size := sz\<rparr>) = acct c"
  by (simp_all add: wf_lru_def acct_def weights_ok_def present_weight_sum_def
      stored_weight_def[abs_def] present_weight_def[abs_def] weightFn_update
      cong: option.case_cong)

lemma LRU_Remove_acct:
  assumes "wf_lru c" "acct c" "LRU_Remove c k s = Inr (present, c', s')"
  shows "wf_lru c' \<and> acct c'"
proof (cases "items c k")
  case None
  with assms show ?thesis by (simp add: LRU_Remove_def)
next
  case (Some p)
  with assms(3) have r: "removeElement c (Some p) s = Inr (c', s')"
    by (auto simp: LRU_Remove_def split: sum.splits)
  from assms(1) Some have pin: "p \<in> set (order (evictList c))"
    unfolding wf_lru_def by blast
  from removeElement_wf[OF assms(1) r pin] removeElement_acct[OF assms(1) r pin] assms(2)
  show ?thesis by (simp add: acct_iff)
qed

lemma LRU_RemoveOldest_acct:
  assumes "wf_lru c" "acct c" "LRU_RemoveOldest c s = Inr (oldest, c', s')"
  shows "wf_lru c' \<and> acct c'"
proof (cases "list_back (evictList c)")
  case None
  with assms show ?thesis by (simp add: LRU_RemoveOldest_def)
next
  case (Some p)
  with assms(3) have r: "removeElement c (Some p) s = Inr (c', s')"
    by (auto simp: LRU_RemoveOldest_def split: sum.splits option.splits)
  note pin = list_back_in[OF Some]
  from removeElement_wf[OF assms(1) r pin] removeElement_acct[OF assms(1) r pin] assms(2)
  show ?thesis by (simp add: acct_iff)
qed

lemma LRU_call_acct:
  assumes wf: "wf_lru l" and a: "acct l" and r: "LRU_call l x w = Inr (res, l', w')"
    and np: "\<And>ks. x \<noteq> Call_Purge ks"
  shows "wf_lru l' \<and> acct l'"
proof (cases x)
  case (Call_Purge ks)
  with np[of ks] show ?thesis by simp
next
  case (Call_Add k v)
  with r obtain ev where "LRU_Add l k v w = Inr (ev, l', w')"
    by (auto simp: LRU_call_def ret_def split: sum.splits)
  from LRU_Add_acct[OF wf a this] show ?thesis .
next
  case (Call_Get k)
  with r obtain v where "LRU_Get l k = Inr (v, l')"
    by (auto simp: LRU_call_def split: sum.splits)
  from LRU_Get_inv[OF wf this] a show ?thesis by (simp add: acct_iff)
next
  case (Call_GetOrAdd k v)
  with r obtain pv l1 where g: "LRU_Get l k = Inr (pv, l1)"
    by (auto simp: LRU_call_def split: sum.splits)
  from LRU_Get_inv[OF wf g] a have i1: "wf_lru l1" "acct l1" by (simp_all add: acct_iff)
  show ?thesis
  proof (cases "pv = None")
    case False
    with r g Call_GetOrAdd i1 show ?thesis by (auto simp: LRU_call_def)
  next
    case True
    with r g Call_GetOrAdd obtain ev where "LRU_Add l1 k v w = Inr (ev, l', w')"
      by (auto simp: LRU_call_def LRU_add_on_miss_def ret_def split: sum.splits)
    from LRU_Add_acct[OF i1 this] show ?thesis .
  qed
next
  case (Call_ContainsOrAdd k v)
  show ?thesis
  proof (cases "LRU_Contains l k")
    case True
    with r Call_ContainsOrAdd wf a show ?thesis by (auto simp: LRU_call_def)
  next
    case False
    with r Call_ContainsOrAdd obtain ev where "LRU_Add l k v w = Inr (ev, l', w')"
      by (auto simp: LRU_call_def LRU_add_on_miss_def ret_def split: sum.splits)
    from LRU_Add_acct[OF wf a this] show ?thesis .
  qed
next
  case (Call_PeekOrAdd k v)
  with r obtain pv where p: "LRU_Peek l k = Inr pv"
    by (auto simp: LRU_call_def split: sum.splits)
  show ?thesis
  proof (cases "pv = None")
    case False
    with r p Call_PeekOrAdd wf a show ?thesis by (auto simp: LRU_call_def)
  next
    case True
    with r p Call_PeekOrAdd obtain ev where "LRU_Add l k v w = Inr (ev, l', w')"
      by (auto simp: LRU_call_def LRU_add_on_miss_def ret_def split: sum.splits)
    from LRU_Add_acct[OF wf a this] show ?thesis .
  qed
next
  case (Call_Remove k)
  with r obtain pr where "LRU_Remove l k w = Inr (pr, l', w')"
    by (auto simp: LRU_call_def ret_def split: sum.splits)
  from LRU_Remove_acct[OF wf a this] show ?thesis .
next
  case (Call_Resize sz)
  with r obtain n where "checkEvict (l\<lparr>lru_size := sz\<rparr>) w = Inr (n, l', w')"
    by (auto simp: LRU_call_def ret_def LRU_Resize_def split: sum.splits)
  from checkEvict_acct[OF _ _ this] wf a show ?thesis
    by (simp add: wf_size_update config_update_inv)
next
  case (Call_ResetWeightLimit wl)
  with r obtain n where "checkEvict (l\<lparr>weightLimit := wl\<rparr>) w = Inr (n, l', w')"
    by (auto simp: LRU_call_def ret_def LRU_ResetWeightLimit_def split: sum.splits)
  from checkEvict_acct[OF _ _ this] wf a show ?thesis
    by (simp add: config_update_inv)
next
  case Call_RemoveOldest
  with r obtain old where "LRU_RemoveOldest l w = Inr (old, l', w')"
    by (auto simp: LRU_call_def ret_def split: sum.splits)
  from LRU_RemoveOldest_acct[OF wf a this] show ?thesis .
qed (use r wf a in \<open>auto simp: LRU_call_def ret_pure_def split: sum.splits\<close>)

subsection \<open>In a consistent cache every call returns, but Resize to a negative size\<close>

lemma removeElement_size:
  "removeElement c e s = Inr (c', s') \<Longrightarrow> lru_size c' = lru_size c"
  by (auto simp: removeElement_def split: option.splits)

lemma checkEvict_size:
  assumes "wf_lru c" "checkEvict c s = Inr (n, c', s')"
  shows "lru_size c' = lru_size c"
proof -
  have d: "distinct (order (evictList c))" using assms(1) by (simp add: wf_lru_def)
  from checkEvict_loop_victims[OF d assms(2)[unfolded checkEvict_def]]
  show ?thesis by (simp add: same_config_def)
qed

lemma LRU_Add_size:
  assumes "wf_lru c" "LRU_Add c k v s = Inr (evicted, c', s')"
  shows "lru_size c' = lru_size c"
proof -
  have "\<exists>c1. Add_update c k v = Some c1 \<and> wf_lru c1 \<and> lru_size c1 = lru_size c"
  proof (cases "items c k")
    case None
    from Add_update_absent_inv[OF assms(1) None, of v] show ?thesis by auto
  next
    case (Some p)
    from Add_update_present_inv[OF assms(1) Some, of v] show ?thesis by auto
  qed
  then obtain c1 where c1: "Add_update c k v = Some c1" "wf_lru c1" "lru_size c1 = lru_size c"
    by blast
  with assms(2) obtain n where "checkEvict c1 s = Inr (n, c', s')"
    by (auto simp: LRU_Add_eq split: sum.splits)
  from checkEvict_size[OF c1(2) this] c1(3) show ?thesis by simp
qed

lemma LRU_call_size:
  assumes wf: "wf_lru l" and sz: "0 \<le> lru_size l" and r: "LRU_call l x w = Inr (res, l', w')"
  shows "0 \<le> lru_size l'"
proof (cases x)
  case (Call_Purge ks)
  with r obtain l1 where "Purge_loop l ks w = Inr (l1, w')" "l' = l1\<lparr>evictList := list_init (evictList l1)\<rparr>"
    by (auto simp: LRU_call_def LRU_Purge_def split: sum.splits)
  with Purge_loop_fields[OF this(1)] sz show ?thesis by simp
next
  case (Call_Add k v)
  with r obtain ev where "LRU_Add l k v w = Inr (ev, l', w')"
    by (auto simp: LRU_call_def ret_def split: sum.splits)
  from LRU_Add_size[OF wf this] sz show ?thesis by simp
next
  case (Call_Get k)
  with r sz show ?thesis
    by (auto simp: LRU_call_def LRU_Get_def split: sum.splits option.splits)
next
  case (Call_GetOrAdd k v)
  with r obtain pv l1 where g: "LRU_Get l k = Inr (pv, l1)"
    by (auto simp: LRU_call_def split: sum.splits)
  from LRU_Get_inv[OF wf g] have w1: "wf_lru l1" by simp
  from g have s1: "lru_size l1 = lru_size l"
    by (auto simp: LRU_Get_def split: option.splits)
  show ?thesis
  proof (cases "pv = None")
    case False
    with r g Call_GetOrAdd s1 sz show ?thesis by (auto simp: LRU_call_def)
  next
    case True
    with r g Call_GetOrAdd obtain ev where "LRU_Add l1 k v w = Inr (ev, l', w')"
      by (auto simp: LRU_call_def LRU_add_on_miss_def ret_def split: sum.splits)
    from LRU_Add_size[OF w1 this] s1 sz show ?thesis by simp
  qed
next
  case (Call_ContainsOrAdd k v)
  show ?thesis
  proof (cases "LRU_Contains l k")
    case True
    with r Call_ContainsOrAdd sz show ?thesis by (auto simp: LRU_call_def)
  next
    case False
    with r Call_ContainsOrAdd obtain ev where "LRU_Add l k v w = Inr (ev, l', w')"
      by (auto simp: LRU_call_def LRU_add_on_miss_def ret_def split: sum.splits)
    from LRU_Add_size[OF wf this] sz show ?thesis by simp
  qed
next
  case (Call_PeekOrAdd k v)
  with r obtain pv where p: "LRU_Peek l k = Inr pv"
    by (auto simp: LRU_call_def split: sum.splits)
  show ?thesis
  proof (cases "pv = None")
    case False
    with r p Call_PeekOrAdd sz show ?thesis by (auto simp: LRU_call_def)
  next
    case True
    with r p Call_PeekOrAdd obtain ev where "LRU_Add l k v w = Inr (ev, l', w')"
      by (auto simp: LRU_call_def LRU_add_on_miss_def ret_def split: sum.splits)
    from LRU_Add_size[OF wf this] sz show ?thesis by simp
  qed
next
  case (Call_Remove k)
  with r sz show ?thesis
    by (auto simp: LRU_call_def ret_def LRU_Remove_def split: sum.splits option.splits
        dest: removeElement_size)
next
  case (Call_Resize n)
  with r obtain m where c: "checkEvict (l\<lparr>lru_size := n\<rparr>) w = Inr (m, l', w')"
    by (auto simp: LRU_call_def ret_def LRU_Resize_def split: sum.splits)
  have "\<not> n < 0"
  proof
    assume "n < 0"
    from negative_size_panics[of "l\<lparr>lru_size := n\<rparr>" w 0] this
    obtain x where "checkEvict (l\<lparr>lru_size := n\<rparr>) w = Inl x"
      by (auto simp: checkEvict_def)
    with c show False by simp
  qed
  moreover from checkEvict_size[OF _ c] wf have "lru_size l' = n" by (simp add: wf_size_update)
  ultimately show ?thesis by simp
next
  case (Call_ResetWeightLimit wl)
  with r obtain m where c: "checkEvict (l\<lparr>weightLimit := wl\<rparr>) w = Inr (m, l', w')"
    by (auto simp: LRU_call_def ret_def LRU_ResetWeightLimit_def split: sum.splits)
  from checkEvict_size[OF _ c] wf sz show ?thesis by (simp add: config_update_inv)
next
  case Call_RemoveOldest
  with r sz show ?thesis
    by (auto simp: LRU_call_def ret_def LRU_RemoveOldest_def split: sum.splits option.splits
        dest: removeElement_size)
qed (use r sz in \<open>auto simp: LRU_call_def ret_pure_def split: sum.splits\<close>)

lemma wf_allocated:
  assumes "wf_lru c"
  shows "items c k = Some p \<Longrightarrow> \<exists>e. cells (evictList c) p = Some e"
    and "list_back (evictList c) = Some p \<Longrightarrow> \<exists>e. cells (evictList c) p = Some e"
    and "q \<in> set (order (evictList c)) \<Longrightarrow> \<exists>e. cells (evictList c) q = Some e"
  using assms list_back_in[of "evictList c" p] unfolding wf_lru_def by blast+

lemma Purge_loop_returns:
  "(\<And>k p. items c k = Some p \<Longrightarrow> \<exists>e. cells (evictList c) p = Some e) \<Longrightarrow>
   \<exists>r. Purge_loop c ks s = Inr r"
proof (induction c ks s rule: Purge_loop.induct)
  case (1 c s)
  then show ?case by simp
next
  case (2 c k ks s)
  show ?case
  proof (cases "items c k")
    case None
    with "2.IH"(1)[OF None] "2.prems" show ?thesis by simp
  next
    case (Some p)
    from "2.prems"[OF Some] obtain e where e: "cells (evictList c) p = Some e" by blast
    have al: "\<exists>e. cells (evictList (c\<lparr>items := (items c)(k := None)\<rparr>)) p' = Some e"
      if "items (c\<lparr>items := (items c)(k := None)\<rparr>) k' = Some p'" for k' p'
      using that "2.prems"[of k' p'] by (auto split: if_splits)
    show ?thesis
    proof (cases "onEvict c")
      case None
      with "2.IH"(2)[OF Some None al] Some show ?thesis by simp
    next
      case f: (Some f)
      with "2.IH"(3)[OF Some f e al] Some e show ?thesis by simp
    qed
  qed
qed

lemma LRU_call_returns:
  assumes wf: "wf_lru l" and a: "acct l" and sz: "0 \<le> lru_size l"
    and nn: "\<And>n. x = Call_Resize n \<Longrightarrow> 0 \<le> n"
  shows "\<exists>r. LRU_call l x w = Inr r"
proof (cases x)
  case (Call_Purge ks)
  from Purge_loop_returns[of l ks w] wf_allocated(1)[OF wf]
  obtain r where "Purge_loop l ks w = Inr r" by blast
  with Call_Purge show ?thesis
    by (cases r) (simp add: LRU_call_def LRU_Purge_def)
next
  case (Call_Add k v)
  from LRU_Add_inv[OF wf a sz, of k v w] Call_Add show ?thesis
    by (auto simp: LRU_call_def ret_def)
next
  case (Call_Get k)
  with wf_allocated(1)[OF wf, of k] show ?thesis
    by (auto simp: LRU_call_def LRU_Get_def split: option.splits)
next
  case (Call_Peek k)
  with wf_allocated(1)[OF wf, of k] show ?thesis
    by (auto simp: LRU_call_def LRU_Peek_def ret_pure_def split: option.splits)
next
  case (Call_GetOrAdd k v)
  show ?thesis
  proof (cases "items l k")
    case None
    then have g: "LRU_Get l k = Inr (None, l)" by (simp add: LRU_Get_def)
    from LRU_Add_inv[OF wf a sz, of k v w] g Call_GetOrAdd show ?thesis
      by (auto simp: LRU_call_def LRU_add_on_miss_def ret_def)
  next
    case (Some p)
    with wf_allocated(1)[OF wf Some] Call_GetOrAdd show ?thesis
      by (auto simp: LRU_call_def LRU_Get_def)
  qed
next
  case (Call_ContainsOrAdd k v)
  from LRU_Add_inv[OF wf a sz, of k v w] Call_ContainsOrAdd show ?thesis
    by (auto simp: LRU_call_def LRU_add_on_miss_def ret_def)
next
  case (Call_PeekOrAdd k v)
  show ?thesis
  proof (cases "items l k")
    case None
    then have g: "LRU_Peek l k = Inr None" by (simp add: LRU_Peek_def)
    from LRU_Add_inv[OF wf a sz, of k v w] g Call_PeekOrAdd show ?thesis
      by (auto simp: LRU_call_def LRU_add_on_miss_def ret_def)
  next
    case (Some p)
    with wf_allocated(1)[OF wf Some] Call_PeekOrAdd show ?thesis
      by (auto simp: LRU_call_def LRU_Peek_def)
  qed
next
  case (Call_Remove k)
  with wf_allocated(1)[OF wf, of k] show ?thesis
    by (auto simp: LRU_call_def LRU_Remove_def removeElement_def ret_def split: option.splits)
next
  case (Call_Resize n)
  from checkEvict_inv[of "l\<lparr>lru_size := n\<rparr>" w] wf a nn[OF Call_Resize] Call_Resize
  show ?thesis
    by (auto simp: LRU_call_def LRU_Resize_def ret_def wf_size_update config_update_inv)
next
  case (Call_ResetWeightLimit wl)
  from checkEvict_inv[of "l\<lparr>weightLimit := wl\<rparr>" w] wf a sz Call_ResetWeightLimit
  show ?thesis
    by (auto simp: LRU_call_def LRU_ResetWeightLimit_def ret_def config_update_inv)
next
  case Call_RemoveOldest
  show ?thesis
  proof (cases "list_back (evictList l)")
    case None
    with Call_RemoveOldest show ?thesis by (simp add: LRU_call_def LRU_RemoveOldest_def ret_def)
  next
    case (Some p)
    with wf_allocated(2)[OF wf Some] Call_RemoveOldest show ?thesis
      by (auto simp: LRU_call_def LRU_RemoveOldest_def removeElement_def list_remove_def ret_def)
  qed
next
  case Call_GetOldest
  show ?thesis
  proof (cases "list_back (evictList l)")
    case None
    with Call_GetOldest show ?thesis by (simp add: LRU_call_def LRU_GetOldest_def ret_pure_def)
  next
    case (Some p)
    with wf_allocated(2)[OF wf Some] Call_GetOldest show ?thesis
      by (auto simp: LRU_call_def LRU_GetOldest_def ret_pure_def)
  qed
next
  case Call_Keys
  with wf_Keys[OF wf] show ?thesis by (auto simp: LRU_call_def ret_pure_def)
qed (simp_all add: LRU_call_def)

subsection \<open>What a stale weight total leads to\<close>

text \<open>
  After \<open>Purge\<close> the stored total can exceed what the entries weigh.  Lowering the
  weight limit below it, or resizing to 0 while it exceeds the limit, then reaches the
  empty list with the condition of the loop still true.
\<close>

lemma stale_total_panics:
  "(case LRU_Purge (demo cb) [''a'', ''b''] s of
      Inl _ \<Rightarrow> False
    | Inr (c', s') \<Rightarrow>
        LRU_ResetWeightLimit c' 5 s' = Inl (NilPointerDereference, c'\<lparr>weightLimit := 5\<rparr>, s'))"
  by (cases cb) (simp_all add: engine_defs demo_def checkEvict_loop.simps)

lemma size_zero_residual_panics:
  "wf_lru c \<Longrightarrow> lru_size c = 0 \<Longrightarrow> weightLimit c < residual c \<Longrightarrow>
   \<exists>x. checkEvict_loop c s n = Inl x"
proof (induction c s n rule: checkEvict_loop.induct)
  case (1 c s n)
  have d: "distinct (order (evictList c))" using "1.prems"(1) by (simp add: wf_lru_def)
  show ?case
  proof (cases "order (evictList c) = []")
    case True
    with "1.prems" have "weightTotal c > weightLimit c"
      by (simp add: residual_def stored_weight_sum_def)
    with True show ?thesis
      by (subst checkEvict_loop.simps) (simp add: list_back_def removeElement_def)
  next
    case False
    with "1.prems"(2) have cond: "int (list_length (evictList c)) > lru_size c \<or> weightTotal c > weightLimit c"
      by (simp add: list_length_def)
    from False "1.prems"(1) obtain e where e: "cells (evictList c) (last (order (evictList c))) = Some e"
      unfolding wf_lru_def by (meson last_in_set)
    note r = removeElement_back[OF False e d, of s]
    have p: "list_back (evictList c) = Some (last (order (evictList c)))"
      using False by (simp add: list_back_def)
    let ?c1 = "c\<lparr>evictList := (evictList c)\<lparr>order := butlast (order (evictList c))\<rparr>,
           items := (items c)(key e := None),
           weightTotal := weightTotal c - weight e\<rparr>"
    have w1: "wf_lru ?c1"
      using removeElement_wf[OF "1.prems"(1) r[unfolded p]] False by simp
    have r1: "residual ?c1 = residual c" using removeElement_back_residual[OF r d] .
    from "1.IH"[OF cond r refl w1] "1.prems" r1
    have "\<exists>x. checkEvict_loop ?c1 (fire c (key e) (val e) s) (n + 1) = Inl x"
      by simp
    with cond r show ?thesis
      by (subst checkEvict_loop.simps) auto
  qed
qed

text \<open>
  \<open>Resize(0)\<close> on a cache whose stored total exceeds the weights of its entries by more
  than the limit: every entry is evicted, the callback runs for each, and then the check
  dereferences the nil handle of the empty list.
\<close>

lemma LRU_Resize_zero_panics:
  assumes "wf_lru c" and "weightLimit c < residual c"
  shows "\<exists>c'. LRU_Resize c 0 s
            = Inl (NilPointerDereference, c', fire_all c (rev (order (evictList c))) s) \<and>
          LRU_Len c' = 0"
proof -
  let ?c0 = "c\<lparr>lru_size := 0\<rparr>"
  have w0: "wf_lru ?c0" using assms(1) by (simp add: wf_size_update)
  from size_zero_residual_panics[OF w0, of s 0] assms(2)
  obtain x where x: "checkEvict_loop ?c0 s 0 = Inl x" by (auto simp: residual_size_update)
  obtain e c' s' where xe: "x = (e, c', s')" by (cases x)
  from checkEvict_loop_panic_state[OF w0 x[unfolded xe]]
  have "e = NilPointerDereference" "order (evictList c') = []"
    "s' = fire_all c (rev (order (evictList c))) s"
    by (simp_all add: fire_all_size_update)
  with x xe show ?thesis
    by (simp add: LRU_Resize_def checkEvict_def LRU_Len_def list_length_def)
qed
section \<open>The claims\<close>

text \<open>
  C1, the failing input.  \<open>Purge\<close> deletes every entry and resets the list, and leaves
  the field \<open>weightTotal\<close> as it was: on the cache \<open>demo\<close>, which holds the weights 3
  and 4, \<open>Purge()\<close> followed by \<open>WeightTotal()\<close> gives 7, while no entry is present
  and the sum of the weights of the present entries is 0.
\<close>

theorem purge_keeps_weight_total:
  "(case LRU_Purge (demo (Some record_call)) [''a'', ''b''] [] of
      Inl _ \<Rightarrow> False
    | Inr (c', calls) \<Rightarrow>
        LRU_Len c' = 0 \<and> LRU_Keys c' = Inr [] \<and> \<not> LRU_Contains c' ''a'' \<and>
        \<not> LRU_Contains c' ''b'' \<and> calls = [(''a'', 3), (''b'', 4)] \<and>
        present_weight_sum c' = 0 \<and> LRU_WeightTotal c' = 7)"
  by (simp add: engine_defs demo_def record_call_def present_weight_sum_def)

text \<open>
  C2, the failing input.  With a negative size the condition of the loop holds in every
  state, also when the list is empty; there \<open>back()\<close> is nil and \<open>removeElement\<close>
  dereferences it.  So on every cache whose size is negative the eviction check panics
  instead of returning: \<open>Resize(-1)\<close> never returns normally.  When list and index
  agree, the check has by then removed every entry and fired the callback for each, the
  oldest first.
\<close>

theorem eviction_check_panics_when_size_negative:
  "lru_size c < 0 \<Longrightarrow>
     \<exists>c' s'. checkEvict c s = Inl (NilPointerDereference, c', s') \<and> lru_size c' = lru_size c \<and>
       (wf_lru c \<longrightarrow> LRU_Len c' = 0 \<and> s' = fire_all c (rev (order (evictList c))) s)"
proof -
  assume neg: "lru_size c < 0"
  from negative_size_panics[OF neg, of s 0] obtain c' s' where
    r: "checkEvict_loop c s 0 = Inl (NilPointerDereference, c', s')" and sz: "lru_size c' = lru_size c"
    by blast
  have "LRU_Len c' = 0 \<and> s' = fire_all c (rev (order (evictList c))) s" if "wf_lru c"
    using checkEvict_loop_panic_state[OF that r] by (simp add: LRU_Len_def list_length_def)
  with r sz show ?thesis by (auto simp: checkEvict_def)
qed

theorem eviction_check_panics_when_size_negative_witness:
  "lru_size ((demo (Some record_call))\<lparr>lru_size := - 1\<rparr>) < 0 \<and>
   wf_lru ((demo (Some record_call))\<lparr>lru_size := - 1\<rparr>) \<and>
   (\<exists>c' s'. checkEvict ((demo (Some record_call))\<lparr>lru_size := - 1\<rparr>) []
              = Inl (NilPointerDereference, c', s') \<and>
            lru_size c' = lru_size ((demo (Some record_call))\<lparr>lru_size := - 1\<rparr>) \<and>
            (wf_lru ((demo (Some record_call))\<lparr>lru_size := - 1\<rparr>) \<longrightarrow>
               LRU_Len c' = 0 \<and>
               s' = fire_all ((demo (Some record_call))\<lparr>lru_size := - 1\<rparr>)
                      (rev (order (evictList ((demo (Some record_call))\<lparr>lru_size := - 1\<rparr>)))) [])) \<and>
   (case checkEvict ((demo (Some record_call))\<lparr>lru_size := - 1\<rparr>) [] of
      Inr _ \<Rightarrow> False
    | Inl (e, c', calls) \<Rightarrow>
        e = NilPointerDereference \<and> LRU_Len c' = 0 \<and> calls = [(''a'', 3), (''b'', 4)])"
proof -
  have h: "lru_size ((demo (Some record_call))\<lparr>lru_size := - 1\<rparr>) < 0" by simp
  have wf: "wf_lru ((demo (Some record_call))\<lparr>lru_size := - 1\<rparr>)"
    by (simp add: wf_size_update wf_demo)
  have e: "(case checkEvict ((demo (Some record_call))\<lparr>lru_size := - 1\<rparr>) [] of
      Inr _ \<Rightarrow> False
    | Inl (e, c', calls) \<Rightarrow>
        e = NilPointerDereference \<and> LRU_Len c' = 0 \<and> calls = [(''a'', 3), (''b'', 4)])"
    by (simp add: engine_defs checkEvict_loop.simps demo_def record_call_def)
  from h wf e eviction_check_panics_when_size_negative [OF h, of "[]"] show ?thesis by blast
qed

text \<open>
  C3, the claim as stated fails.  In the cache \<open>demo\<close> the key \<open>"a"\<close> is present;
  \<open>Add("a", 12)\<close> raises the weight total to 16, above the limit 10, and the eviction
  check removes \<open>"b"\<close> and then \<open>"a"\<close> itself, whose weight alone exceeds the limit.
\<close>

theorem add_evicts_the_updated_key:
  "LRU_Contains (demo (Some record_call)) ''a'' \<and>
   (case LRU_Add (demo (Some record_call)) ''a'' 12 [] of
      Inl _ \<Rightarrow> False
    | Inr (evicted, c', calls) \<Rightarrow>
        evicted \<and> \<not> LRU_Contains c' ''a'' \<and> calls = [(''b'', 4), (''a'', 12)])"
  by (simp add: engine_defs checkEvict_loop.simps demo_def record_call_def)

text \<open>
  C3, amended.  In a cache of size at least 1 whose list and index agree and whose
  weight total is the sum of the weights of its entries, \<open>Add(key, value)\<close> on a key
  already present returns without panic; it keeps the key whenever the weight of the new
  value is within the weight limit (always, when no weight function is configured), and
  when it does evict the key then the weight of the new value exceeds the limit and every
  other entry has been evicted before it, leaving the cache empty.
\<close>

theorem add_keeps_updated_key_within_limit:
  assumes "wf_lru c" and "acct c" and "1 \<le> lru_size c" and "LRU_Contains c k"
  shows "(case LRU_Add c k v s of
            Inl _ \<Rightarrow> False
          | Inr (evicted, c', s') \<Rightarrow>
              (weightFn c v \<le> weightLimit c \<longrightarrow> LRU_Contains c' k) \<and>
              (\<not> LRU_Contains c' k \<longrightarrow> LRU_Len c' = 0 \<and> weightLimit c < weightFn c v))"
proof -
  from assms(4) obtain p where it: "items c k = Some p"
    by (auto simp: LRU_Contains_def split: option.splits)
  have wo: "weights_ok c" and r0: "residual c = 0" using assms(2) by (simp_all add: acct_iff)
  from Add_update_present_inv[OF assms(1) it, of v] wo
  obtain c1 where c1: "Add_update c k v = Some c1" "wf_lru c1" "residual c1 = residual c"
     "weights_ok c1" "stored_weight c1 p = weightFn c v"
     "order (evictList c1) = p # remove1 p (order (evictList c))" "items c1 = items c"
     "lru_size c1 = lru_size c" "weightLimit c1 = weightLimit c" by blast
  have a1: "acct c1" using c1(3,4) r0 by (simp add: acct_iff)
  from checkEvict_inv[OF c1(2) a1, of s] assms(3) c1(8)
  obtain n c' s' where r: "checkEvict c1 s = Inr (n, c', s')" "wf_lru c'" "same_config c1 c'"
     "order (evictList c') = take (length (order (evictList c1)) - n) (order (evictList c1))"
    by auto
  have res: "LRU_Add c k v s = Inr (n > 0, c', s')" using c1(1) r(1) by (simp add: LRU_Add_eq)
  from c1(2) c1(6) obtain e1 where e1: "cells (evictList c1) p = Some e1" "items c1 (key e1) = Some p"
    unfolding wf_lru_def by (metis list.set_intros(1))
  with it c1(7) c1(2) have ke: "key e1 = k"
    unfolding wf_lru_def by (metis option.inject)
  have cl: "cells (evictList c') = cells (evictList c1)" using r(3) by (simp add: same_config_def)
  have in_iff: "LRU_Contains c' k \<longleftrightarrow> p \<in> set (order (evictList c'))"
  proof
    assume "p \<in> set (order (evictList c'))"
    with r(2) obtain e where "cells (evictList c') p = Some e" "items c' (key e) = Some p"
      unfolding wf_lru_def by blast
    with e1 ke cl show "LRU_Contains c' k" by (simp add: LRU_Contains_def)
  next
    assume "LRU_Contains c' k"
    then obtain q where q: "items c' k = Some q"
      by (auto simp: LRU_Contains_def split: option.splits)
    with r(2) obtain e where e: "q \<in> set (order (evictList c'))"
      "cells (evictList c') q = Some e" "key e = k"
      unfolding wf_lru_def by blast
    from e(1) have "q \<in> set (order (evictList c1))" unfolding r(4) by (rule in_set_takeD)
    with c1(2) e(2) cl have "items c1 (key e) = Some q"
      unfolding wf_lru_def by fastforce
    with e(3) it c1(7) have "q = p" by simp
    with e(1) show "p \<in> set (order (evictList c'))" by simp
  qed
  have keep: "p \<in> set (order (evictList c'))" if "weightFn c v \<le> weightLimit c"
    using checkEvict_loop_keeps_front[OF c1(2) _ _ c1(6) _ r(1)[unfolded checkEvict_def]]
      c1(3,5,8,9) r0 assms(3) that by simp
  have empty: "LRU_Len c' = 0" if "p \<notin> set (order (evictList c'))"
  proof -
    have "length (order (evictList c1)) - n = 0"
      using that unfolding r(4) c1(6)
      by (cases "length (p # remove1 p (order (evictList c))) - n") auto
    then show ?thesis by (simp add: LRU_Len_def list_length_def r(4))
  qed
  have gt: "weightLimit c < weightFn c v" if "p \<notin> set (order (evictList c'))"
    using that keep by (cases "weightFn c v \<le> weightLimit c") (auto simp: not_le)
  show ?thesis
    unfolding res using in_iff keep empty gt by simp
qed

theorem add_keeps_updated_key_within_limit_witness:
  "wf_lru (demo (Some record_call)) \<and> acct (demo (Some record_call)) \<and>
   1 \<le> lru_size (demo (Some record_call)) \<and> LRU_Contains (demo (Some record_call)) ''a'' \<and>
   (case LRU_Add (demo (Some record_call)) ''a'' 5 [] of
      Inl _ \<Rightarrow> False
    | Inr (evicted, c', s') \<Rightarrow>
        (weightFn (demo (Some record_call)) 5 \<le> weightLimit (demo (Some record_call))
           \<longrightarrow> LRU_Contains c' ''a'') \<and>
        (\<not> LRU_Contains c' ''a'' \<longrightarrow>
           LRU_Len c' = 0 \<and>
           weightLimit (demo (Some record_call)) < weightFn (demo (Some record_call)) 5)) \<and>
   weightFn (demo (Some record_call)) 5 \<le> weightLimit (demo (Some record_call)) \<and>
   (case LRU_Add (demo (Some record_call)) ''a'' 5 [] of
      Inl _ \<Rightarrow> False
    | Inr (evicted, c', calls) \<Rightarrow>
        \<not> evicted \<and> LRU_Contains c' ''a'' \<and> LRU_Keys c' = Inr [''b'', ''a''] \<and>
        LRU_WeightTotal c' = 9 \<and> calls = [])"
proof -
  have h1: "wf_lru (demo (Some record_call))" by (rule wf_demo)
  have h2: "acct (demo (Some record_call))" by (rule acct_demo)
  have h3: "1 \<le> lru_size (demo (Some record_call))" by (simp add: demo_def)
  have h4: "LRU_Contains (demo (Some record_call)) ''a''"
    by (simp add: LRU_Contains_def demo_def)
  have e: "weightFn (demo (Some record_call)) 5 \<le> weightLimit (demo (Some record_call))"
    by (simp add: weightFn_def demo_def)
  have v: "(case LRU_Add (demo (Some record_call)) ''a'' 5 [] of
      Inl _ \<Rightarrow> False
    | Inr (evicted, c', calls) \<Rightarrow>
        \<not> evicted \<and> LRU_Contains c' ''a'' \<and> LRU_Keys c' = Inr [''b'', ''a''] \<and>
        LRU_WeightTotal c' = 9 \<and> calls = [])"
    by (simp add: engine_defs checkEvict_loop.simps demo_def record_call_def)
  from h1 h2 h3 h4 e v
    add_keeps_updated_key_within_limit [OF h1 h2 h3 h4, where v = 5 and s = "[]"]
  show ?thesis by blast
qed

text \<open>
  C4.  On a cache constructed with a positive size, with any weight limit and with or
  without a weight function, after every sequence of \<open>Add\<close> calls (so after each call of
  the sequence) no call has panicked, \<open>Len()\<close> is at most the size and the stored weight
  total is at most the weight limit.  The stored total is then the sum, in \<open>uint64\<close>
  arithmetic, of the weights of the present entries.
\<close>

theorem capacity_after_adds:
  "0 < sz \<Longrightarrow>
     (case NewLRUWithWeightLimit sz wl wc cb of
        Inl _ \<Rightarrow> False
      | Inr c0 \<Rightarrow>
          (case Add_all c0 kvs s of
             Inl _ \<Rightarrow> False
           | Inr (c, s') \<Rightarrow>
               lru_size c = sz \<and> weightLimit c = wl \<and>
               int (LRU_Len c) \<le> lru_size c \<and> LRU_WeightTotal c \<le> weightLimit c \<and>
               LRU_WeightTotal c = present_weight_sum c))"
proof -
  assume sz: "0 < sz"
  then obtain c0 where c0: "NewLRUWithWeightLimit sz wl wc cb = Inr c0"
    by (simp add: NewLRUWithWeightLimit_def)
  note i = new_inv[OF c0]
  from i have "int (LRU_Len c0) \<le> lru_size c0" "LRU_WeightTotal c0 \<le> weightLimit c0"
    "0 \<le> lru_size c0" by auto
  from Add_all_inv[OF _ _ this(3,1,2), of kvs s] i
  obtain c' s' where "Add_all c0 kvs s = Inr (c', s')" "acct c'"
     "lru_size c' = lru_size c0" "weightLimit c' = weightLimit c0"
     "int (LRU_Len c') \<le> lru_size c'" "LRU_WeightTotal c' \<le> weightLimit c'" by blast
  with c0 i show ?thesis by (simp add: acct_def LRU_WeightTotal_def)
qed

theorem capacity_after_adds_witness:
  "(0::int) < 2 \<and>
     (case NewLRUWithWeightLimit 2 10 (Some (\<lambda>v. v))
             (None :: (string \<Rightarrow> uint64 \<Rightarrow> unit \<Rightarrow> unit) option) of
        Inl _ \<Rightarrow> False
      | Inr c0 \<Rightarrow>
          (case Add_all c0 [(''a'', 6), (''b'', 6), (''a'', 3)] () of
             Inl _ \<Rightarrow> False
           | Inr (c, s') \<Rightarrow>
               lru_size c = 2 \<and> weightLimit c = 10 \<and>
               int (LRU_Len c) \<le> lru_size c \<and> LRU_WeightTotal c \<le> weightLimit c \<and>
               LRU_WeightTotal c = present_weight_sum c)) \<and>
     (case NewLRUWithWeightLimit 2 10 (Some (\<lambda>v. v))
             (None :: (string \<Rightarrow> uint64 \<Rightarrow> unit \<Rightarrow> unit) option) of
        Inl _ \<Rightarrow> False
      | Inr c0 \<Rightarrow>
          (case Add_all c0 [(''a'', 6), (''b'', 6), (''a'', 3)] () of
             Inl _ \<Rightarrow> False
           | Inr (c, s') \<Rightarrow>
               LRU_Len c = 2 \<and> LRU_WeightTotal c = 9 \<and> LRU_Keys c = Inr [''b'', ''a'']))"
proof -
  have h: "(0::int) < 2" by simp
  have v: "(case NewLRUWithWeightLimit 2 10 (Some (\<lambda>v. v))
             (None :: (string \<Rightarrow> uint64 \<Rightarrow> unit \<Rightarrow> unit) option) of
        Inl _ \<Rightarrow> False
      | Inr c0 \<Rightarrow>
          (case Add_all c0 [(''a'', 6), (''b'', 6), (''a'', 3)] () of
             Inl _ \<Rightarrow> False
           | Inr (c, s') \<Rightarrow>
               LRU_Len c = 2 \<and> LRU_WeightTotal c = 9 \<and> LRU_Keys c = Inr [''b'', ''a'']))"
    by (simp add: engine_defs checkEvict_loop.simps)
  from h v
    capacity_after_adds [OF h, where wl = 10 and wc = "Some (\<lambda>v. v)"
      and cb = "None :: (string \<Rightarrow> uint64 \<Rightarrow> unit \<Rightarrow> unit) option"
      and kvs = "[(''a'', 6), (''b'', 6), (''a'', 3)]" and s = "()"]
  show ?thesis by blast
qed






text \<open>
  C7, the failing input.  A wrapper with weight limit 10, the identity as weight function
  and a user callback that records its calls; \<open>Add("a", 3)\<close>, \<open>Add("b", 4)\<close>,
  \<open>Purge()\<close>, \<open>Add("c", 1)\<close>, \<open>ResetWeightLimit(5)\<close>.  \<open>Purge\<close> delivers the pairs of
  \<open>"a"\<close> and \<open>"b"\<close> and leaves the stored weight total at 7; \<open>Add("c", 1)\<close> raises it to 8;
  \<open>ResetWeightLimit(5)\<close> evicts \<open>"c"\<close>, whose pair the wrapper's \<open>onEvicted\<close> appends to
  the buffers, and then, the total still being 7, dereferences the nil handle of the empty
  list.  The method of the wrapper never reaches its closing block: the pair
  \<open>("c", 1)\<close> is in the buffers and the user's callback has not been called for it, while
  an engine with the user's callback as its own \<open>onEvict\<close> has called it.  The same
  happens with \<open>Resize(-1)\<close> on a wrapper that holds \<open>"a"\<close> and \<open>"b"\<close>: both pairs are
  buffered, neither is delivered.
\<close>

theorem evicted_pairs_stay_buffered_when_check_panics:
  "(case NewWithWeightLimitAndEvict 2 10 (Some (\<lambda>v. v)) (Some record_call) of
      Inl _ \<Rightarrow> False
    | Inr c0 \<Rightarrow>
        (case run Cache_call c0
                [Call_Add ''a'' 3, Call_Add ''b'' 4, Call_Purge [''a'', ''b''],
                 Call_Add ''c'' 1, Call_ResetWeightLimit 5] [] of
           Inr _ \<Rightarrow> False
         | Inl (e, rs, c, calls) \<Rightarrow>
             e = NilPointerDereference \<and>
             rs = [Ret_Bool False, Ret_Bool False, Ret_Unit, Ret_Bool False] \<and>
             Cache_Len c = 0 \<and> evictedKeys c = [''c''] \<and> evictedVals c = [1] \<and>
             calls = [(''a'', 3), (''b'', 4)])) \<and>
   (case NewLRUWithWeightLimit 2 10 (Some (\<lambda>v. v)) (Some record_call) of
      Inl _ \<Rightarrow> False
    | Inr l0 \<Rightarrow>
        (case run LRU_call l0
                [Call_Add ''a'' 3, Call_Add ''b'' 4, Call_Purge [''a'', ''b''],
                 Call_Add ''c'' 1, Call_ResetWeightLimit 5] [] of
           Inr _ \<Rightarrow> False
         | Inl (e, rs, l, calls) \<Rightarrow>
             e = NilPointerDereference \<and>
             rs = [Ret_Bool False, Ret_Bool False, Ret_Unit, Ret_Bool False] \<and>
             LRU_Len l = 0 \<and> calls = [(''a'', 3), (''b'', 4), (''c'', 1)])) \<and>
   (case NewWithEvict 2 (Some record_call) of
      Inl _ \<Rightarrow> False
    | Inr c0 \<Rightarrow>
        (case run Cache_call c0
                [Call_Add ''a'' (1::nat), Call_Add ''b'' 2, Call_Resize (- 1)] [] of
           Inr _ \<Rightarrow> False
         | Inl (e, rs, c, calls) \<Rightarrow>
             e = NilPointerDereference \<and> rs = [Ret_Bool False, Ret_Bool False] \<and>
             Cache_Len c = 0 \<and> evictedKeys c = [''a'', ''b''] \<and> evictedVals c = [1, 2] \<and>
             calls = []))"
  by (simp add: engine_defs wrapper_defs checkEvict_loop.simps Cache_call_def LRU_call_def
      ret_def ret_pure_def record_call_def)

text \<open>
  C8, the failing input.  Construction fails exactly for a size that is not positive
  (lemma \<open>construction_fails_iff\<close>), but it is not the only failure: on every cache,
  also a new one, the method \<open>Resize\<close> called with a negative size panics with a nil
  pointer dereference, in the engine and so in the wrapper, whose user callback is then
  in the state it was in before the call.
\<close>

theorem resize_negative_panics:
  "sz < 0 \<Longrightarrow>
     (\<exists>c' s'. LRU_Resize c sz s = Inl (NilPointerDereference, c', s')) \<and>
     (\<exists>d'. Cache_Resize d sz w = Inl (NilPointerDereference, d', w))"
proof -
  assume neg: "sz < 0"
  from negative_size_panics[of "c\<lparr>lru_size := sz\<rparr>" s 0] neg
  have 1: "\<exists>c' s'. LRU_Resize c sz s = Inl (NilPointerDereference, c', s')"
    by (auto simp: LRU_Resize_def checkEvict_def)
  from negative_size_panics[of "(lru d)\<lparr>lru_size := sz\<rparr>" "(evictedKeys d, evictedVals d)" 0] neg
  have 2: "\<exists>d'. Cache_Resize d sz w = Inl (NilPointerDereference, d', w)"
    by (auto simp: Cache_Resize_def LRU_Resize_def checkEvict_def)
  from 1 2 show ?thesis by blast
qed

theorem resize_negative_panics_witness:
  "(- 1 :: int) < 0 \<and>
   (case New 1 :: error + (string, uint64, unit) Cache of
      Inl _ \<Rightarrow> False
    | Inr d \<Rightarrow>
        (\<exists>c' s'. LRU_Resize (lru d) (- 1) ([], []) = Inl (NilPointerDereference, c', s')) \<and>
        (\<exists>d'. Cache_Resize d (- 1) () = Inl (NilPointerDereference, d', ())) \<and>
        LRU_Resize (lru d) (- 1) ([], [])
          = Inl (NilPointerDereference, (lru d)\<lparr>lru_size := - 1\<rparr>, ([], [])) \<and>
        Cache_Resize d (- 1) ()
          = Inl (NilPointerDereference, d\<lparr>lru := (lru d)\<lparr>lru_size := - 1\<rparr>\<rparr>, ()))"
proof -
  have h: "(- 1 :: int) < 0" by simp
  obtain d :: "(string, uint64, unit) Cache" where d: "New 1 = Inr d"
    and e: "LRU_Resize (lru d) (- 1) ([], [])
          = Inl (NilPointerDereference, (lru d)\<lparr>lru_size := - 1\<rparr>, ([], []))"
       "Cache_Resize d (- 1) ()
          = Inl (NilPointerDereference, d\<lparr>lru := (lru d)\<lparr>lru_size := - 1\<rparr>\<rparr>, ())"
    by (simp add: engine_defs wrapper_defs checkEvict_loop.simps)
  from h d e resize_negative_panics [OF h, of "lru d" "([], [])" d "()"] show ?thesis by simp
qed

text \<open>
  C9.  On a weighted cache with weight limit 10 and the identity weight function, of any
  positive size and with or without an eviction callback, \<open>Add("x", 6)\<close> followed by
  \<open>Add("y", 6)\<close> makes the second \<open>Add\<close> return \<open>evicted = true\<close>; afterwards
  \<open>WeightTotal()\<close> is 6 and \<open>Keys()\<close> is \<open>["y"]\<close>.  This holds for the engine and for
  the wrapper.
\<close>

theorem weighted_scenario_evicts_x:
  "0 < sz \<Longrightarrow>
     (case NewLRUWithWeightLimit sz 10 (Some (\<lambda>v. v)) cb of
        Inl _ \<Rightarrow> False
      | Inr c0 \<Rightarrow>
          (case LRU_Add c0 ''x'' 6 s of
             Inl _ \<Rightarrow> False
           | Inr (e1, c1, s1) \<Rightarrow>
               (case LRU_Add c1 ''y'' 6 s1 of
                  Inl _ \<Rightarrow> False
                | Inr (e2, c2, s2) \<Rightarrow>
                    e2 \<and> LRU_WeightTotal c2 = 6 \<and> LRU_Keys c2 = Inr [''y''])))
     \<and>
     (case NewWithWeightLimitAndEvict sz 10 (Some (\<lambda>v. v)) ucb of
        Inl _ \<Rightarrow> False
      | Inr d0 \<Rightarrow>
          (case Cache_Add d0 ''x'' 6 w of
             Inl _ \<Rightarrow> False
           | Inr (e1, d1, w1) \<Rightarrow>
               (case Cache_Add d1 ''y'' 6 w1 of
                  Inl _ \<Rightarrow> False
                | Inr (e2, d2, w2) \<Rightarrow>
                    e2 \<and> Cache_WeightTotal d2 = 6 \<and> Cache_Keys d2 = Inr [''y''])))"
  by (cases ucb) (simp_all add: engine_defs wrapper_defs checkEvict_loop.simps)

theorem weighted_scenario_evicts_x_witness:
  "(0::int) < 2 \<and>
     (case NewLRUWithWeightLimit 2 10 (Some (\<lambda>v. v))
             (None :: (string \<Rightarrow> uint64 \<Rightarrow> unit \<Rightarrow> unit) option) of
        Inl _ \<Rightarrow> False
      | Inr c0 \<Rightarrow>
          (case LRU_Add c0 ''x'' 6 () of
             Inl _ \<Rightarrow> False
           | Inr (e1, c1, s1) \<Rightarrow>
               (case LRU_Add c1 ''y'' 6 s1 of
                  Inl _ \<Rightarrow> False
                | Inr (e2, c2, s2) \<Rightarrow>
                    e2 \<and> LRU_WeightTotal c2 = 6 \<and> LRU_Keys c2 = Inr [''y''])))
     \<and>
     (case NewWithWeightLimitAndEvict 2 10 (Some (\<lambda>v. v))
             (None :: (string \<Rightarrow> uint64 \<Rightarrow> unit \<Rightarrow> unit) option) of
        Inl _ \<Rightarrow> False
      | Inr d0 \<Rightarrow>
          (case Cache_Add d0 ''x'' 6 () of
             Inl _ \<Rightarrow> False
           | Inr (e1, d1, w1) \<Rightarrow>
               (case Cache_Add d1 ''y'' 6 w1 of
                  Inl _ \<Rightarrow> False
                | Inr (e2, d2, w2) \<Rightarrow>
                    e2 \<and> Cache_WeightTotal d2 = 6 \<and> Cache_Keys d2 = Inr [''y''])))"
  using weighted_scenario_evicts_x [where sz = 2 and cb = None and s = "()" and ucb = None and w = "()"]
  by simp

text \<open>
  C10, the failing input.  A cache with weight limit 10 and the identity as weight
  function; \<open>Add("a", 6)\<close>, \<open>Add("b", 2^64 - 3)\<close>, \<open>Remove("a")\<close>, \<open>Purge()\<close>.  Every
  call returns: the second \<open>Add\<close> makes the \<open>uint64\<close> total wrap around to 3, within
  the limit; \<open>Remove("a")\<close> subtracts 6 and leaves \<open>2^64 - 3\<close>, the weight of \<open>"b"\<close>; and
  \<open>Purge\<close> removes \<open>"b"\<close> without touching the total.  The cache then holds no entry and
  its stored total is above the limit, so in \<open>Resize(0)\<close> the condition of the loop
  holds on the empty list and \<open>removeElement\<close> dereferences the nil handle: \<open>Resize(0)\<close>
  panics instead of returning 0.  The same happens in the wrapper, here one without a
  callback.
\<close>

theorem resize_zero_panics_on_stale_total:
  "(case NewLRUWithWeightLimit 2 10 (Some (\<lambda>v. v)) (Some record_call) of
      Inl _ \<Rightarrow> False
    | Inr l0 \<Rightarrow>
        (case run LRU_call l0
                [Call_Add ''a'' 6, Call_Add ''b'' 18446744073709551613, Call_Remove ''a'',
                 Call_Purge [''b'']] [] of
           Inl _ \<Rightarrow> False
         | Inr (rs, l, calls) \<Rightarrow>
             rs = [Ret_Bool False, Ret_Bool False, Ret_Bool True, Ret_Unit] \<and>
             LRU_Len l = 0 \<and> LRU_Keys l = Inr [] \<and> LRU_WeightTotal l = 18446744073709551613 \<and>
             calls = [(''a'', 6), (''b'', 18446744073709551613)] \<and>
             LRU_Resize l 0 calls = Inl (NilPointerDereference, l\<lparr>lru_size := 0\<rparr>, calls))) \<and>
   (case NewWithWeightLimitAndEvict 2 10 (Some (\<lambda>v. v))
           (None :: (string \<Rightarrow> uint64 \<Rightarrow> unit \<Rightarrow> unit) option) of
      Inl _ \<Rightarrow> False
    | Inr c0 \<Rightarrow>
        (case run Cache_call c0
                [Call_Add ''a'' 6, Call_Add ''b'' 18446744073709551613, Call_Remove ''a'',
                 Call_Purge [''b'']] () of
           Inl _ \<Rightarrow> False
         | Inr (rs, c, u) \<Rightarrow>
             rs = [Ret_Bool False, Ret_Bool False, Ret_Bool True, Ret_Unit] \<and>
             Cache_Len c = 0 \<and> Cache_Keys c = Inr [] \<and>
             Cache_WeightTotal c = 18446744073709551613 \<and>
             Cache_Resize c 0 ()
               = Inl (NilPointerDereference, c\<lparr>lru := (lru c)\<lparr>lru_size := 0\<rparr>\<rparr>, ())))"
  by (simp add: engine_defs wrapper_defs checkEvict_loop.simps Cache_call_def LRU_call_def
      ret_def ret_pure_def record_call_def)
end
